theory Spec2Isabelle
  imports Complex_Main
begin

text \<open>
  A shallow embedding of the numerical core of \<open>src/hello.jsx\<close>: the AHP engine
  \<open>computeAHPFromMatrix\<close>, the allocation heuristic \<open>solveLPHeuristic\<close>, the evaluator
  \<open>computeObjectives\<close>, the multi-objective branch of \<open>runOptimization\<close> and the matrix
  edit \<open>updatePairwise\<close>, followed by the properties claimed of them.
\<close>

section \<open>JavaScript numbers\<close>

text \<open>
  A JavaScript number is an IEEE 754 double: a finite value, one of the two infinities, or
  \<open>NaN\<close>. A finite double is represented by the real number it denotes, and every
  arithmetic operation rounds its exact result to the nearest double (ties to the even
  significand) and overflows to an infinity, as the language prescribes. The two zeros are
  not distinguished (a zero divisor counts as \<open>+0\<close>). The value \<open>undefined\<close> that an
  out-of-range array read yields is represented by \<open>NaN\<close>: every use the program makes of
  such a value (arithmetic, comparison, \<open>Math.max\<close>, \<open>Math.min\<close>, truthiness) converts
  \<open>undefined\<close> to \<open>NaN\<close> first or treats both alike.
\<close>

datatype jsnum = Fin real | PInf | NInf | NaN

text \<open>Rounding to the nearest integer, a tie going to the even neighbour.\<close>

definition rne :: "real \<Rightarrow> int" where
  "rne y =
     (let f = \<lfloor>y\<rfloor>; d = y - of_int f
      in if d < 1 / 2 then f else if 1 / 2 < d then f + 1 else if even f then f else f + 1)"

text \<open>
  The doubles around \<open>x\<close> are the multiples of \<open>2 ^ e\<close>, where \<open>e\<close> is 52 below the binary
  exponent of \<open>x\<close>, and \<open>-1074\<close> in the subnormal range.
\<close>

definition ulp_exponent :: "real \<Rightarrow> int" where
  "ulp_exponent x = max \<lfloor>log 2 \<bar>x\<bar>\<rfloor> (- 1022) - 52"

text \<open>The nearest double to a real, before the check for overflow.\<close>

definition fl :: "real \<Rightarrow> real" where
  "fl x =
     (if x = 0 then 0
      else of_int (rne (x / 2 powr of_int (ulp_exponent x))) * 2 powr of_int (ulp_exponent x))"

text \<open>
  The double that an exact result rounds to: the largest finite double is
  \<open>2 ^ 1024 - 2 ^ 971\<close>, and a result that rounds to \<open>2 ^ 1024\<close> or beyond is infinite.
\<close>

definition to_double :: "real \<Rightarrow> jsnum" where
  "to_double x =
     (let y = fl x
      in if 2 ^ 1024 \<le> y then PInf else if y \<le> - (2 ^ 1024) then NInf else Fin y)"

text \<open>A decimal literal of the source denotes the nearest double.\<close>

definition js_lit :: "real \<Rightarrow> jsnum" where
  "js_lit x = to_double x"

instantiation jsnum :: "{plus, minus, times, inverse}"
begin

fun plus_jsnum :: "jsnum \<Rightarrow> jsnum \<Rightarrow> jsnum" where
  "plus_jsnum NaN _ = NaN"
| "plus_jsnum _ NaN = NaN"
| "plus_jsnum (Fin a) (Fin b) = to_double (a + b)"
| "plus_jsnum PInf NInf = NaN"
| "plus_jsnum NInf PInf = NaN"
| "plus_jsnum PInf _ = PInf"
| "plus_jsnum _ PInf = PInf"
| "plus_jsnum NInf _ = NInf"
| "plus_jsnum _ NInf = NInf"

fun minus_jsnum :: "jsnum \<Rightarrow> jsnum \<Rightarrow> jsnum" where
  "minus_jsnum NaN _ = NaN"
| "minus_jsnum _ NaN = NaN"
| "minus_jsnum (Fin a) (Fin b) = to_double (a - b)"
| "minus_jsnum PInf PInf = NaN"
| "minus_jsnum NInf NInf = NaN"
| "minus_jsnum PInf _ = PInf"
| "minus_jsnum _ NInf = PInf"
| "minus_jsnum NInf _ = NInf"
| "minus_jsnum _ PInf = NInf"

fun times_jsnum :: "jsnum \<Rightarrow> jsnum \<Rightarrow> jsnum" where
  "times_jsnum NaN _ = NaN"
| "times_jsnum _ NaN = NaN"
| "times_jsnum (Fin a) (Fin b) = to_double (a * b)"
| "times_jsnum (Fin a) PInf = (if a = 0 then NaN else if 0 < a then PInf else NInf)"
| "times_jsnum (Fin a) NInf = (if a = 0 then NaN else if 0 < a then NInf else PInf)"
| "times_jsnum PInf (Fin b) = (if b = 0 then NaN else if 0 < b then PInf else NInf)"
| "times_jsnum NInf (Fin b) = (if b = 0 then NaN else if 0 < b then NInf else PInf)"
| "times_jsnum PInf PInf = PInf"
| "times_jsnum NInf NInf = PInf"
| "times_jsnum PInf NInf = NInf"
| "times_jsnum NInf PInf = NInf"

fun divide_jsnum :: "jsnum \<Rightarrow> jsnum \<Rightarrow> jsnum" where
  "divide_jsnum NaN _ = NaN"
| "divide_jsnum _ NaN = NaN"
| "divide_jsnum (Fin a) (Fin b) =
     (if b \<noteq> 0 then to_double (a / b)
      else if 0 < a then PInf else if a < 0 then NInf else NaN)"
| "divide_jsnum (Fin a) _ = Fin 0"
| "divide_jsnum PInf (Fin b) = (if 0 \<le> b then PInf else NInf)"
| "divide_jsnum NInf (Fin b) = (if 0 \<le> b then NInf else PInf)"
| "divide_jsnum _ _ = NaN"

text \<open>The class of \<open>/\<close> also asks for the unary inverse \<open>1 / a\<close>; the program has no use of it.\<close>

fun inverse_jsnum :: "jsnum \<Rightarrow> jsnum" where
  "inverse_jsnum (Fin a) = (if a \<noteq> 0 then to_double (1 / a) else PInf)"
| "inverse_jsnum NaN = NaN"
| "inverse_jsnum _ = Fin 0"

instance ..

end

text \<open>Truthiness of a number: \<open>0\<close> and \<open>NaN\<close> (and \<open>undefined\<close>) are falsy.\<close>

fun truthy :: "jsnum \<Rightarrow> bool" where
  "truthy (Fin a) = (a \<noteq> 0)"
| "truthy NaN = False"
| "truthy _ = True"

text \<open>The operator \<open>a || b\<close> on numbers.\<close>

definition js_or :: "jsnum \<Rightarrow> jsnum \<Rightarrow> jsnum" where
  "js_or a b = (if truthy a then a else b)"

text \<open>The comparison \<open>a > b\<close>: false as soon as one side is \<open>NaN\<close>.\<close>

fun js_gt :: "jsnum \<Rightarrow> jsnum \<Rightarrow> bool" where
  "js_gt NaN _ = False"
| "js_gt _ NaN = False"
| "js_gt (Fin a) (Fin b) = (b < a)"
| "js_gt PInf PInf = False"
| "js_gt PInf _ = True"
| "js_gt NInf _ = False"
| "js_gt (Fin a) PInf = False"
| "js_gt (Fin a) NInf = True"

text \<open>The comparison \<open>a >= b\<close>.\<close>

fun js_ge :: "jsnum \<Rightarrow> jsnum \<Rightarrow> bool" where
  "js_ge NaN _ = False"
| "js_ge _ NaN = False"
| "js_ge (Fin a) (Fin b) = (b \<le> a)"
| "js_ge PInf _ = True"
| "js_ge _ NInf = True"
| "js_ge _ _ = False"

fun Math_max :: "jsnum \<Rightarrow> jsnum \<Rightarrow> jsnum" where
  "Math_max NaN _ = NaN"
| "Math_max _ NaN = NaN"
| "Math_max a b = (if js_gt a b then a else b)"

fun Math_min :: "jsnum \<Rightarrow> jsnum \<Rightarrow> jsnum" where
  "Math_min NaN _ = NaN"
| "Math_min _ NaN = NaN"
| "Math_min a b = (if js_gt a b then b else a)"

fun Math_abs :: "jsnum \<Rightarrow> jsnum" where
  "Math_abs (Fin a) = Fin \<bar>a\<bar>"
| "Math_abs NaN = NaN"
| "Math_abs _ = PInf"

text \<open>\<open>Math.round\<close> rounds to the nearest integer, a tie going towards \<open>+\<infinity>\<close>.\<close>

fun Math_round :: "jsnum \<Rightarrow> jsnum" where
  "Math_round (Fin a) = Fin (of_int (round a))"
| "Math_round v = v"

text \<open>
  \<open>Math.pow(x, y)\<close> for a positive, finite exponent \<open>y\<close> that is not an integer (the
  program's only exponent is the literal \<open>0.8\<close>): a negative finite base gives \<open>NaN\<close>. The
  result is taken to be the correctly rounded power.
\<close>

fun Math_pow :: "jsnum \<Rightarrow> real \<Rightarrow> jsnum" where
  "Math_pow (Fin a) y = (if a < 0 then NaN else to_double (a powr y))"
| "Math_pow NaN y = NaN"
| "Math_pow _ y = PInf"

text \<open>
  Errors of the language. A call that spreads an array into its arguments throws
  \<open>RangeError\<close> when the array is longer than the engine allows; writing through a row that
  does not exist throws \<open>TypeError\<close>.
\<close>

datatype js_error = TypeError | RangeError

text \<open>
  \<open>Math.max(...args)\<close>. The largest number of arguments of a call is a property of the
  engine, the parameter \<open>argLimit\<close>. Without arguments the result is \<open>-Infinity\<close>.
\<close>

definition Math_max_spread :: "nat \<Rightarrow> jsnum list \<Rightarrow> js_error + jsnum" where
  "Math_max_spread argLimit args =
     (if argLimit < length args then Inl RangeError else Inr (foldr Math_max args NInf))"

text \<open>An array read \<open>xs[i]\<close>; out of range it yields \<open>undefined\<close>.\<close>

definition js_nth :: "jsnum list \<Rightarrow> nat \<Rightarrow> jsnum" where
  "js_nth xs i = (if i < length xs then xs ! i else NaN)"

text \<open>The fold \<open>xs.reduce((a, b) => a + b, 0)\<close>.\<close>

definition js_sum :: "jsnum list \<Rightarrow> jsnum" where
  "js_sum xs = foldl (+) (Fin 0) xs"

text \<open>The fold \<open>xs.reduce((s, xi, i) => s + cs[i] * xi, 0)\<close>.\<close>

definition js_dot :: "jsnum list \<Rightarrow> jsnum list \<Rightarrow> jsnum" where
  "js_dot cs xs = foldl (\<lambda>s (i, xi). s + js_nth cs i * xi) (Fin 0) (enumerate 0 xs)"

text \<open>
  An array write \<open>xs[i] = v\<close>; beyond the end the array grows, and the cells it skips
  are holes, which read as \<open>undefined\<close>.
\<close>

definition js_set :: "jsnum list \<Rightarrow> nat \<Rightarrow> jsnum \<Rightarrow> jsnum list" where
  "js_set xs i v =
     (if i < length xs then xs[i := v] else xs @ replicate (i - length xs) NaN @ [v])"

section \<open>The AHP engine\<close>

record ahp_result =
  weights :: "jsnum list"
  lambdaMax :: jsnum
  CI :: jsnum
  CR :: jsnum

text \<open>The object literal \<open>RI_table\<close>; a missing key reads as \<open>undefined\<close>.\<close>

definition RI_table :: "nat \<Rightarrow> jsnum option" where
  "RI_table n =
     (if n = 1 then Some (Fin 0) else if n = 2 then Some (Fin 0)
      else if n = 3 then Some (js_lit 0.58) else if n = 4 then Some (js_lit 0.90)
      else if n = 5 then Some (js_lit 1.12) else None)"

text \<open>
  Lines 53 to 75. The local names \<open>normM\<close>, \<open>ws\<close>, \<open>lMax\<close>, \<open>ci\<close>, \<open>cr\<close> and \<open>totalW\<close>
  stand for \<open>norm\<close>, \<open>weights\<close>, \<open>lambdaMax\<close>, \<open>CI\<close>, \<open>CR\<close> and \<open>total\<close> of the source,
  names that are taken by constants of the logic or by the fields of the result.
\<close>

definition computeAHPFromMatrix :: "jsnum list list \<Rightarrow> ahp_result" where
  "computeAHPFromMatrix matrix =
     (let n = length matrix;
          colSums = map (\<lambda>j. foldl (\<lambda>s i. s + js_nth (matrix ! i) j) (Fin 0) [0..<n]) [0..<n];
          normM = map (\<lambda>row. map (\<lambda>(j, val). val / js_or (js_nth colSums j) (Fin 1))
                                 (enumerate 0 row)) matrix;
          ws = map (\<lambda>row. js_sum row / Fin (real n)) normM;
          lambdaVec = map (\<lambda>(i, row).
                             foldl (\<lambda>s (j, val). s + val * js_nth ws j) (Fin 0) (enumerate 0 row)
                             / js_or (js_nth ws i) (Fin 1))
                          (enumerate 0 matrix);
          lMax = js_sum lambdaVec / Fin (real n);
          ci = (lMax - Fin (real n)) / (Fin (real n) - Fin 1);
          RI = (case RI_table n of Some r \<Rightarrow> r | None \<Rightarrow> js_lit 1.24);
          cr = (if truthy RI then ci / RI else Fin 0);
          totalW = js_or (js_sum ws) (Fin 1);
          normalized = map (\<lambda>w. w / totalW) ws
      in \<lparr>weights = normalized, lambdaMax = lMax, CI = ci, CR = cr\<rparr>)"

section \<open>The constrained allocation heuristic\<close>

text \<open>
  The \<open>options\<close> object. \<open>maximize\<close> is the truthiness of \<open>options.maximize\<close>;
  \<open>strategy\<close> is the string \<open>options.strategy\<close>, which the code only compares with
  \<open>'aggressive'\<close> and \<open>'conservative'\<close> (an absent strategy behaves like any other string).
\<close>

record lp_options =
  maximize :: bool
  strategy :: string

record lp_result =
  solution :: "jsnum list"
  objective :: jsnum

text \<open>The literal array \<open>cumCapacity\<close> of the function body.\<close>

definition cumCapacity :: "real list" where
  "cumCapacity =
     [2700000, 5200000, 7900000, 10700000, 13500000, 16200000,
      19000000, 22000000, 24800000, 27800000, 30600000, 32700000]"

text \<open>\<open>Math.max(...coeffs.map(c => Math.abs(c)), 1)\<close>\<close>

definition lp_maxAbs :: "nat \<Rightarrow> jsnum list \<Rightarrow> js_error + jsnum" where
  "lp_maxAbs argLimit coeffs = Math_max_spread argLimit (map Math_abs coeffs @ [Fin 1])"

text \<open>The value of \<open>x\<close> before the cumulative check and the clamp (lines 97 to 110).\<close>

definition lp_target :: "lp_options \<Rightarrow> jsnum \<Rightarrow> jsnum \<Rightarrow> jsnum \<Rightarrow> jsnum" where
  "lp_target options rank lb ub =
     (let x = (if strategy options = ''aggressive''
               then lb + (ub - lb) * Math_pow rank (fl 0.8)
               else if strategy options = ''conservative'' then lb + (ub - lb) * js_lit 0.15
               else lb + (ub - lb) * (js_lit 0.35 + js_lit 0.5 * rank))
      in if \<not> maximize options then lb + (ub - lb) * (Fin 1 - rank) else x)"

text \<open>
  The cumulative check, the clamp and the rounding (lines 112 to 120): the value stored
  in \<open>solution[i]\<close>, from the bounds, \<open>cumCapacity[i]\<close>, the running total and \<open>x\<close>.
\<close>

definition lp_clamp :: "jsnum \<Rightarrow> jsnum \<Rightarrow> jsnum \<Rightarrow> jsnum \<Rightarrow> jsnum \<Rightarrow> jsnum" where
  "lp_clamp lb ub cap cumulative x0 =
     (let expected = cumulative + x0;
          x = (if js_gt expected cap then Math_max lb (cap - cumulative) else x0);
          x = Math_min ub (Math_max lb x)
      in Math_round x)"

text \<open>
  One pass of the loop body (lines 91 to 120), from \<open>coeffs[i]\<close>, \<open>lower[i]\<close>, \<open>upper[i]\<close>,
  \<open>cumCapacity[i]\<close> and the running total.
\<close>

definition lp_period ::
  "lp_options \<Rightarrow> jsnum \<Rightarrow> jsnum \<Rightarrow> jsnum \<Rightarrow> jsnum \<Rightarrow> jsnum \<Rightarrow> jsnum \<Rightarrow> jsnum" where
  "lp_period options maxAbs c lb ub cap cumulative =
     (let rank = (c / maxAbs + Fin 1) / Fin 2
      in lp_clamp lb ub cap cumulative (lp_target options rank lb ub))"

function lp_loop ::
  "lp_options \<Rightarrow> jsnum list \<Rightarrow> jsnum list \<Rightarrow> jsnum list \<Rightarrow> jsnum \<Rightarrow>
   nat \<Rightarrow> jsnum \<Rightarrow> jsnum list \<Rightarrow> jsnum list" where
  "lp_loop options coeffs lower upper maxAbs i cumulative sol =
     (if i < length coeffs then
        let v = lp_period options maxAbs (js_nth coeffs i) (js_nth lower i) (js_nth upper i)
                  (js_nth (map Fin cumCapacity) i) cumulative;
            sol' = js_set sol i v
        in lp_loop options coeffs lower upper maxAbs (Suc i) (cumulative + js_nth sol' i) sol'
      else sol)"
  by pat_completeness auto
termination
  by (relation "measure (\<lambda>(options, coeffs, lower, upper, maxAbs, i, cumulative, sol).
        length coeffs - i)") auto

declare lp_loop.simps [simp del]

text \<open>
  Lines 78 to 126. The only statement that can throw is the call of \<open>Math.max\<close> with the
  spread array.
\<close>

definition solveLPHeuristic ::
  "nat \<Rightarrow> jsnum list \<Rightarrow> jsnum list \<Rightarrow> jsnum list \<Rightarrow> lp_options \<Rightarrow> js_error + lp_result" where
  "solveLPHeuristic argLimit coeffs lower upper options =
     (let n = length coeffs
      in case lp_maxAbs argLimit coeffs of
           Inl e \<Rightarrow> Inl e
         | Inr maxAbs \<Rightarrow>
             let sol = lp_loop options coeffs lower upper maxAbs 0 (Fin 0) (replicate n (Fin 0))
             in Inr \<lparr>solution = sol, objective = js_dot coeffs sol\<rparr>)"

section \<open>The objective evaluator and the multi-objective strategy\<close>

record objectives =
  Z1 :: jsnum
  Z2 :: jsnum
  Z3 :: jsnum

definition computeObjectives ::
  "jsnum list \<Rightarrow> jsnum list \<Rightarrow> jsnum list \<Rightarrow> jsnum list \<Rightarrow> objectives" where
  "computeObjectives turnover cost productivity x =
     \<lparr>Z1 = js_dot turnover x, Z2 = js_dot cost x, Z3 = js_dot productivity x\<rparr>"

text \<open>The component state \<open>data\<close>: five arrays of numbers.\<close>

record period_data =
  turnover :: "jsnum list"
  cost :: "jsnum list"
  productivity :: "jsnum list"
  orders :: "jsnum list"
  capacity :: "jsnum list"

record improvements =
  imp_turnover :: string
  imp_cost :: string
  imp_productivity :: string

record strategy_result =
  res_solution :: "jsnum list"
  turnoverVal :: jsnum
  costVal :: jsnum
  productivityVal :: jsnum
  res_weights :: "jsnum list"
  res_improvements :: improvements

text \<open>
  The branch \<open>mode === 'multiObjective'\<close> of \<open>runOptimization\<close> (lines 260 and 297 to
  328), as a function of the state it reads: \<open>data\<close> and \<open>ahp\<close> (\<open>None\<close> when no AHP
  result has been computed yet). The value is the \<open>result\<close> that the branch stores; an
  error thrown by the heuristic leaves the branch (it is caught at line 349, and no
  result is stored). The built-in \<open>Number.prototype.toFixed\<close> is a parameter:
  \<open>toFixed v 2\<close> stands for \<open>v.toFixed(2)\<close>.
\<close>

definition runOptimization_multiObjective ::
  "nat \<Rightarrow> (jsnum \<Rightarrow> nat \<Rightarrow> string) \<Rightarrow> period_data \<Rightarrow> ahp_result option \<Rightarrow>
   js_error + strategy_result" where
  "runOptimization_multiObjective argLimit toFixed d ahp =
     (let ws = (case ahp of Some a \<Rightarrow> weights a
                | None \<Rightarrow> [js_lit 0.132, js_lit 0.612, js_lit 0.256]);
          combined = map (\<lambda>(i, t). js_nth ws 0 * t * Fin 1000
                                     - js_nth ws 1 * js_nth (cost d) i * Fin 1000
                                     + js_nth ws 2 * js_nth (productivity d) i)
                         (enumerate 0 (turnover d))
      in case solveLPHeuristic argLimit combined (orders d) (capacity d)
                \<lparr>maximize = True, strategy = ''balanced''\<rparr> of
           Inl e \<Rightarrow> Inl e
         | Inr r \<Rightarrow>
            (let z = computeObjectives (turnover d) (cost d) (productivity d) (solution r);
                 actualTurnover = Z1 z * Fin 1000;
                 actualCost = Z2 z;
                 actualProductivity = Z3 z;
                 baselineZ1 = js_dot (turnover d) (orders d);
                 baselineZ2 = js_dot (cost d) (orders d);
                 baselineZ3 = js_dot (productivity d) (orders d);
                 imps = \<lparr>
                   imp_turnover =
                     (if truthy baselineZ1
                      then toFixed ((actualTurnover - baselineZ1 * Fin 1000)
                                    / (baselineZ1 * Fin 1000) * Fin 100) 2
                      else ''0.00''),
                   imp_cost =
                     (if truthy baselineZ2
                      then toFixed ((baselineZ2 - actualCost) / baselineZ2 * Fin 100) 2
                      else ''0.00''),
                   imp_productivity =
                     (if truthy baselineZ3
                      then toFixed ((actualProductivity - baselineZ3) / baselineZ3 * Fin 100) 2
                      else ''0.00'')\<rparr>
             in Inr \<lparr>res_solution = solution r, turnoverVal = actualTurnover,
                     costVal = actualCost, productivityVal = actualProductivity,
                     res_weights = ws, res_improvements = imps\<rparr>))"

section \<open>Editing the pairwise matrix\<close>

definition DEFAULT_PAIRWISE :: "jsnum list list" where
  "DEFAULT_PAIRWISE =
     [[Fin 1, js_lit 0.2, js_lit 0.333], [Fin 5, Fin 1, Fin 5], [Fin 3, js_lit 0.2, Fin 1]]"

text \<open>
  The state update of \<open>updatePairwise\<close> (lines 186 to 194), from the previous matrix to
  the next. The argument \<open>pf\<close> is the number \<open>parseFloat(value)\<close>, the result of the
  built-in on the text of the input field (\<open>NaN\<close> for a text that is not numeric).
\<close>

definition updatePairwise ::
  "nat \<Rightarrow> nat \<Rightarrow> jsnum \<Rightarrow> jsnum list list \<Rightarrow> js_error + jsnum list list" where
  "updatePairwise i j pf prev =
     (let parsed = js_or pf (Fin 1)
      in if length prev \<le> i then Inl TypeError
         else
           let copy = prev[i := js_set (prev ! i) j parsed]
           in if i \<noteq> j
              then (if length copy \<le> j then Inl TypeError
                    else Inr (copy[j := js_set (copy ! j) i (Fin 1 / parsed)]))
              else Inr copy)"

text \<open>A sequence of edits \<open>(i, j, parseFloat(value))\<close>, applied in order.\<close>

fun updatePairwise_all ::
  "(nat \<times> nat \<times> jsnum) list \<Rightarrow> jsnum list list \<Rightarrow> js_error + jsnum list list" where
  "updatePairwise_all [] m = Inr m"
| "updatePairwise_all ((i, j, pf) # es) m =
     (case updatePairwise i j pf m of Inl e \<Rightarrow> Inl e | Inr m' \<Rightarrow> updatePairwise_all es m')"

section \<open>Auxiliary lemmas\<close>

subsection \<open>Rounding to the nearest integer, ties to even\<close>

lemma rne_of_int [simp]: "rne (of_int k) = k"
  by (simp add: rne_def)

lemma rne_lower: "\<lfloor>y\<rfloor> \<le> rne y"
  by (simp add: rne_def Let_def)

lemma rne_upper: "rne y \<le> \<lfloor>y\<rfloor> + 1"
  by (simp add: rne_def Let_def)

lemma rne_mono: "x \<le> y \<Longrightarrow> rne x \<le> rne y"
proof -
  assume le: "x \<le> y"
  then have "\<lfloor>x\<rfloor> \<le> \<lfloor>y\<rfloor>" by (rule floor_mono)
  then consider "\<lfloor>x\<rfloor> = \<lfloor>y\<rfloor>" | "\<lfloor>x\<rfloor> + 1 \<le> \<lfloor>y\<rfloor>" by linarith
  then show ?thesis
  proof cases
    case 1
    with le show ?thesis by (auto simp: rne_def Let_def)
  next
    case 2
    have "rne x \<le> \<lfloor>x\<rfloor> + 1" by (rule rne_upper)
    also have "\<dots> \<le> \<lfloor>y\<rfloor>" by fact
    also have "\<dots> \<le> rne y" by (rule rne_lower)
    finally show ?thesis .
  qed
qed

lemma rne_ge_int: "of_int k \<le> y \<Longrightarrow> k \<le> rne y"
  using rne_mono[of "of_int k" y] by simp

lemma rne_le_int: "y \<le> of_int k \<Longrightarrow> rne y \<le> k"
  using rne_mono[of y "of_int k"] by simp

lemma rne_minus: "rne (- y) = - rne y"
proof (cases "y \<in> \<int>")
  case True
  then obtain k where "y = of_int k" by (auto elim: Ints_cases)
  then have "- y = of_int (- k)" by simp
  then show ?thesis using \<open>y = of_int k\<close> by (simp only: rne_of_int)
next
  case False
  then have ne: "y \<noteq> of_int \<lfloor>y\<rfloor>" by (metis Ints_of_int)
  then have fl: "\<lfloor>- y\<rfloor> = - \<lfloor>y\<rfloor> - 1"
    by (simp add: floor_minus ceiling_altdef)
  have "of_int \<lfloor>y\<rfloor> < y" using ne of_int_floor_le[of y] by linarith
  then show ?thesis
    using fl by (auto simp: rne_def Let_def)
qed

subsection \<open>Rounding to the nearest double\<close>

lemma fl_0 [simp]: "fl 0 = 0"
  by (simp add: fl_def)

lemma ulp_exponent_minus [simp]: "ulp_exponent (- x) = ulp_exponent x"
  by (simp add: ulp_exponent_def)

lemma fl_minus: "fl (- x) = - fl x"
  by (simp add: fl_def rne_minus)

lemma two_powr_pos [simp]: "0 < (2 :: real) powr a"
  by simp

lemma two_powr_int_mono: "a \<le> b \<Longrightarrow> (2 :: real) powr of_int a \<le> 2 powr of_int b"
  by simp

lemma binade:
  assumes "0 < x"
  shows "2 powr of_int \<lfloor>log 2 x\<rfloor> \<le> x" "x < 2 powr of_int (\<lfloor>log 2 x\<rfloor> + 1)"
proof -
  have "\<lfloor>log 2 x\<rfloor> = \<lfloor>log 2 x\<rfloor>" ..
  then have "2 powr of_int \<lfloor>log 2 x\<rfloor> \<le> x \<and> x < 2 powr (of_int \<lfloor>log 2 x\<rfloor> + 1)"
    using floor_log_eq_powr_iff[OF assms, of 2 "\<lfloor>log 2 x\<rfloor>"] by simp
  then show "2 powr of_int \<lfloor>log 2 x\<rfloor> \<le> x" "x < 2 powr of_int (\<lfloor>log 2 x\<rfloor> + 1)"
    by simp_all
qed

lemma two_powr_53: "(2 :: real) powr 53 = of_int (2 ^ 53)" and two_powr_52: "(2 :: real) powr 52 = of_int (2 ^ 52)"
  by simp_all

text \<open>For a positive \<open>x\<close> with clamped exponent \<open>E\<close>, the rounded value is at most \<open>2^(E+1)\<close>,
  and at least \<open>2^E\<close> when \<open>x\<close> is in the normal range.\<close>

lemma fl_pos_upper:
  assumes "0 < x"
  shows "fl x \<le> 2 powr of_int (ulp_exponent x + 53)"
proof -
  let ?e = "ulp_exponent x"
  have e: "\<lfloor>log 2 x\<rfloor> + 1 \<le> ?e + 53" using assms by (simp add: ulp_exponent_def)
  have "x < 2 powr of_int (\<lfloor>log 2 x\<rfloor> + 1)" using binade(2)[OF assms] .
  also have "\<dots> \<le> 2 powr of_int (?e + 53)" using e by (rule two_powr_int_mono)
  finally have "x < 2 powr of_int (?e + 53)" .
  then have "x < 2 powr 53 * 2 powr of_int ?e" by (simp add: powr_add mult.commute)
  then have "x / 2 powr of_int ?e < 2 powr 53" by (simp add: pos_divide_less_eq)
  then have "x / 2 powr of_int ?e \<le> of_int (2 ^ 53)" by (simp add: two_powr_53)
  then have "rne (x / 2 powr of_int ?e) \<le> 2 ^ 53" by (rule rne_le_int)
  then have "(of_int (rne (x / 2 powr of_int ?e)) :: real) \<le> 2 powr 53"
    by (simp add: two_powr_53 flip: of_int_le_iff)
  then have "of_int (rne (x / 2 powr of_int ?e)) * 2 powr of_int ?e
             \<le> (2 :: real) powr 53 * 2 powr of_int ?e"
    by (intro mult_right_mono) simp_all
  then show ?thesis using assms by (simp add: fl_def powr_add mult.commute)
qed

lemma fl_pos_lower:
  assumes "0 < x" "- 1022 \<le> \<lfloor>log 2 x\<rfloor>"
  shows "2 powr of_int (ulp_exponent x + 52) \<le> fl x"
proof -
  let ?e = "ulp_exponent x"
  have e: "?e + 52 = \<lfloor>log 2 x\<rfloor>" using assms by (simp add: ulp_exponent_def)
  have "2 powr of_int (?e + 52) \<le> x" using binade(1)[OF assms(1)] e by simp
  then have "2 powr 52 * 2 powr of_int ?e \<le> x" by (simp add: powr_add mult.commute)
  then have "2 powr 52 \<le> x / 2 powr of_int ?e" by (simp add: pos_le_divide_eq)
  then have "of_int (2 ^ 52) \<le> x / 2 powr of_int ?e" by (simp add: two_powr_52)
  then have "2 ^ 52 \<le> rne (x / 2 powr of_int ?e)" by (rule rne_ge_int)
  then have "2 powr 52 \<le> (of_int (rne (x / 2 powr of_int ?e)) :: real)"
    by (simp add: two_powr_52 flip: of_int_le_iff)
  then have "(2 :: real) powr 52 * 2 powr of_int ?e
             \<le> of_int (rne (x / 2 powr of_int ?e)) * 2 powr of_int ?e"
    by (intro mult_right_mono) simp_all
  then show ?thesis using assms by (simp add: fl_def powr_add mult.commute)
qed

lemma fl_nonneg: "0 \<le> x \<Longrightarrow> 0 \<le> fl x"
proof (cases "x = 0")
  case False
  assume "0 \<le> x"
  with False have "0 \<le> x / 2 powr of_int (ulp_exponent x)" by simp
  then have "0 \<le> rne (x / 2 powr of_int (ulp_exponent x))"
    using rne_ge_int[of 0] by simp
  then show ?thesis using False by (simp add: fl_def)
qed simp

lemma ulp_exponent_mono: "0 < x \<Longrightarrow> x \<le> y \<Longrightarrow> ulp_exponent x \<le> ulp_exponent y"
proof -
  assume "0 < x" "x \<le> y"
  then have "log 2 x \<le> log 2 y" by simp
  then have "\<lfloor>log 2 x\<rfloor> \<le> \<lfloor>log 2 y\<rfloor>" by (rule floor_mono)
  then show ?thesis using \<open>0 < x\<close> \<open>x \<le> y\<close> by (simp add: ulp_exponent_def)
qed

lemma fl_mono_pos:
  assumes "0 < x" "x \<le> y"
  shows "fl x \<le> fl y"
proof -
  from assms have y: "0 < y" by simp
  have le: "ulp_exponent x \<le> ulp_exponent y" using assms by (rule ulp_exponent_mono)
  show ?thesis
  proof (cases "ulp_exponent x = ulp_exponent y")
    case True
    let ?u = "2 powr of_int (ulp_exponent y)"
    have "x / ?u \<le> y / ?u" using assms(2) by (simp add: divide_right_mono)
    then have "rne (x / ?u) \<le> rne (y / ?u)" by (rule rne_mono)
    then have "(of_int (rne (x / ?u)) :: real) * ?u \<le> of_int (rne (y / ?u)) * ?u"
      by (simp add: mult_right_mono)
    then show ?thesis using assms y True by (simp add: fl_def)
  next
    case False
    with le have lt: "ulp_exponent x + 1 \<le> ulp_exponent y" by simp
    then have norm: "- 1022 \<le> \<lfloor>log 2 y\<rfloor>" using y unfolding ulp_exponent_def by linarith
    have "fl x \<le> 2 powr of_int (ulp_exponent x + 53)" by (rule fl_pos_upper[OF assms(1)])
    also have "\<dots> \<le> 2 powr of_int (ulp_exponent y + 52)"
      using lt by (intro two_powr_int_mono) simp
    also have "\<dots> \<le> fl y" by (rule fl_pos_lower[OF y norm])
    finally show ?thesis .
  qed
qed

lemma fl_mono: "x \<le> y \<Longrightarrow> fl x \<le> fl y"
proof -
  assume le: "x \<le> y"
  consider "0 < x" | "x \<le> 0" "0 \<le> y" | "y < 0" by linarith
  then show ?thesis
  proof cases
    case 1
    then show ?thesis using le by (rule fl_mono_pos)
  next
    case 2
    have "0 \<le> fl (- x)" using 2(1) by (intro fl_nonneg) simp
    then have "fl x \<le> 0" by (simp add: fl_minus)
    also have "0 \<le> fl y" using 2(2) by (rule fl_nonneg)
    finally show ?thesis .
  next
    case 3
    then have "fl (- y) \<le> fl (- x)" using le by (intro fl_mono_pos) simp_all
    then show ?thesis by (simp add: fl_minus)
  qed
qed

lemma fl_dyadic_pos:
  assumes k: "0 < k" "k < 2 ^ 53" and j: "- 1074 \<le> j"
  shows "fl (of_int k * 2 powr of_int j) = of_int k * 2 powr of_int j"
proof -
  define x :: real where "x = of_int k * 2 powr of_int j"
  define e where "e = ulp_exponent x"
  have x: "0 < x" using k by (simp add: x_def)
  have "(of_int k :: real) < of_int (2 ^ 53)" using k(2) by (simp only: of_int_less_iff)
  then have "(of_int k :: real) < 2 powr 53" by simp
  then have "x < 2 powr 53 * 2 powr of_int j"
    unfolding x_def by (intro mult_strict_right_mono) simp_all
  then have "x < 2 powr of_int (52 + j + 1)" by (simp add: powr_add mult.commute)
  moreover have "2 powr of_int \<lfloor>log 2 x\<rfloor> \<le> x" by (rule binade(1)[OF x])
  ultimately have "(2 :: real) powr of_int \<lfloor>log 2 x\<rfloor> < 2 powr of_int (52 + j + 1)" by linarith
  then have "\<lfloor>log 2 x\<rfloor> < 52 + j + 1" by (simp only: powr_less_cancel_iff[of 2] of_int_less_iff)
  then have e: "e \<le> j" using j x unfolding e_def ulp_exponent_def by simp
  define d where "d = nat (j - e)"
  have jd: "j = e + int d" using e by (simp add: d_def)
  have "(2 :: real) powr of_int j = 2 powr of_int e * 2 ^ d"
    unfolding jd by (simp add: powr_add powr_realpow)
  then have q: "x / 2 powr of_int e = of_int (k * 2 ^ d)" by (simp add: x_def)
  have "fl x = of_int (rne (x / 2 powr of_int e)) * 2 powr of_int e"
    using x by (simp add: fl_def e_def)
  also have "\<dots> = of_int (k * 2 ^ d) * 2 powr of_int e" by (simp only: q rne_of_int)
  also have "\<dots> = x / 2 powr of_int e * 2 powr of_int e" by (simp only: q)
  also have "\<dots> = x" by simp
  finally show ?thesis by (simp only: x_def)
qed

lemma fl_dyadic:
  assumes "\<bar>k\<bar> < 2 ^ 53" "- 1074 \<le> j"
  shows "fl (of_int k * 2 powr of_int j) = of_int k * 2 powr of_int j"
proof -
  consider "k = 0" | "0 < k" | "k < 0" by linarith
  then show ?thesis
  proof cases
    case 1
    then show ?thesis by simp
  next
    case 2
    then show ?thesis using assms by (intro fl_dyadic_pos) simp_all
  next
    case 3
    then have "fl (of_int (- k) * 2 powr of_int j) = of_int (- k) * 2 powr of_int j"
      using assms by (intro fl_dyadic_pos) simp_all
    then have "fl (- (of_int k * 2 powr of_int j)) = - (of_int k * 2 powr of_int j)" by simp
    then show ?thesis by (simp only: fl_minus neg_equal_iff_equal)
  qed
qed

lemma fl_pow2: "fl (2 ^ n) = 2 ^ n"
  using fl_dyadic[of 1 "int n"] by (simp add: powr_realpow)

lemma fl_int:
  assumes "\<bar>k\<bar> \<le> 2 ^ 53"
  shows "fl (of_int k) = of_int k"
proof (cases "\<bar>k\<bar> = 2 ^ 53")
  case True
  then have "k = 2 ^ 53 \<or> k = - (2 ^ 53)" by linarith
  then show ?thesis using fl_pow2[of 53] fl_minus[of "2 ^ 53"] by auto
next
  case False
  with assms have "\<bar>k\<bar> < 2 ^ 53" by simp
  then show ?thesis using fl_dyadic[of k 0] by simp
qed

lemma fl_Ints: "x \<in> \<int> \<Longrightarrow> \<bar>x\<bar> \<le> 2 ^ 53 \<Longrightarrow> fl x = x"
proof -
  assume "x \<in> \<int>" and b: "\<bar>x\<bar> \<le> 2 ^ 53"
  then obtain k where k: "x = of_int k" by (auto elim: Ints_cases)
  with b have "\<bar>of_int k :: real\<bar> \<le> of_int (2 ^ 53)" by simp
  then have "\<bar>k\<bar> \<le> 2 ^ 53" by (simp only: of_int_abs[symmetric] of_int_le_iff)
  then show "fl x = x" using k fl_int by simp
qed

lemma fl_half_int: "\<bar>k\<bar> < 2 ^ 53 \<Longrightarrow> fl (of_int k / 2) = of_int k / 2"
  using fl_dyadic[of k "- 1"] by (simp add: powr_minus field_simps)

lemma fl_div_pow2: "\<bar>k\<bar> < 2 ^ 53 \<Longrightarrow> n \<le> 1074 \<Longrightarrow> fl (of_int k / 2 ^ n) = of_int k / 2 ^ n"
  using fl_dyadic[of k "- int n"] by (simp add: powr_minus powr_realpow field_simps)

lemma fl_le: "x \<le> d \<Longrightarrow> fl d = d \<Longrightarrow> fl x \<le> d"
  using fl_mono[of x d] by simp

lemma fl_ge: "d \<le> x \<Longrightarrow> fl d = d \<Longrightarrow> d \<le> fl x"
  using fl_mono[of d x] by simp

subsection \<open>Conversion with overflow\<close>

lemma to_double_not_NaN [simp]: "to_double x \<noteq> NaN"
  by (simp add: to_double_def Let_def)

lemma to_double_Fin: "- (2 ^ 1024) < fl x \<Longrightarrow> fl x < 2 ^ 1024 \<Longrightarrow> to_double x = Fin (fl x)"
  by (simp add: to_double_def Let_def)

lemma to_double_bounded:
  assumes "lo \<le> x" "x \<le> hi" "fl lo = lo" "fl hi = hi" "- (2 ^ 1024) < lo" "hi < 2 ^ 1024"
  shows "to_double x = Fin (fl x)" "lo \<le> fl x" "fl x \<le> hi"
proof -
  show lo: "lo \<le> fl x" using assms(1,3) by (rule fl_ge)
  show hi: "fl x \<le> hi" using assms(2,4) by (rule fl_le)
  show "to_double x = Fin (fl x)" using lo hi assms(5,6) by (intro to_double_Fin) linarith+
qed

lemma to_double_exact: "fl x = x \<Longrightarrow> \<bar>x\<bar> < 2 ^ 1024 \<Longrightarrow> to_double x = Fin x"
  using to_double_Fin[of x] by simp

lemma to_double_Ints: "x \<in> \<int> \<Longrightarrow> \<bar>x\<bar> \<le> 2 ^ 53 \<Longrightarrow> to_double x = Fin x"
proof -
  assume x: "x \<in> \<int>" "\<bar>x\<bar> \<le> 2 ^ 53"
  have "(2 :: real) ^ 53 < 2 ^ 1024" by simp
  with x(2) have "\<bar>x\<bar> < 2 ^ 1024" by linarith
  then show ?thesis using fl_Ints[OF x] by (intro to_double_exact)
qed

lemma to_double_0 [simp]: "to_double 0 = Fin 0"
  by (simp add: to_double_def)

subsection \<open>Array reads and writes\<close>

lemma js_nth_map_Fin: "i < length xs \<Longrightarrow> js_nth (map Fin xs) i = Fin (xs ! i)"
  by (simp add: js_nth_def)

lemma js_nth_in_range: "i < length xs \<Longrightarrow> js_nth xs i = xs ! i"
  by (simp add: js_nth_def)

lemma js_nth_js_set: "js_nth (js_set xs i v) i = v"
  by (simp add: js_nth_def js_set_def nth_append)

lemma js_set_in_range: "i < length xs \<Longrightarrow> js_set xs i v = xs[i := v]"
  by (simp add: js_set_def)

lemma js_nth_Cons_0: "js_nth (x # xs) 0 = x"
  by (simp add: js_nth_def)

lemma js_nth_Cons_Suc: "js_nth (x # xs) (Suc i) = js_nth xs i"
  by (simp add: js_nth_def)

lemma js_nth_Nil: "js_nth [] i = NaN"
  by (simp add: js_nth_def)

subsection \<open>Operations with \<open>NaN\<close> and on finite numbers\<close>

lemma plus_NaN_right [simp]: "x + NaN = NaN" for x :: jsnum
  by (cases x) simp_all

lemma minus_NaN_right [simp]: "x - NaN = NaN" for x :: jsnum
  by (cases x) simp_all

lemma times_NaN_right [simp]: "x * NaN = NaN" for x :: jsnum
  by (cases x) simp_all

lemma divide_NaN_right [simp]: "x / NaN = NaN" for x :: jsnum
  by (cases x) simp_all

lemma Math_max_NaN_right [simp]: "Math_max x NaN = NaN"
  by (cases x) simp_all

lemma Math_min_NaN_right [simp]: "Math_min x NaN = NaN"
  by (cases x) simp_all

lemma js_gt_NaN_right [simp]: "\<not> js_gt x NaN"
  by (cases x) simp_all

lemma Math_max_Fin: "Math_max (Fin a) (Fin b) = Fin (max a b)"
  by (simp add: max_def)

lemma Math_min_Fin: "Math_min (Fin a) (Fin b) = Fin (min a b)"
  by (simp add: min_def)

lemma Fin_plus_not_NaN: "x \<noteq> NaN \<Longrightarrow> Fin a + x \<noteq> NaN"
  by (cases x) simp_all

lemma Fin_times_Fin_not_NaN: "Fin a * Fin b \<noteq> NaN"
  by simp

lemma Fin_minus_not_NaN: "x \<noteq> NaN \<Longrightarrow> Fin a - x \<noteq> NaN"
  by (cases x) simp_all

lemma Math_max_Fin_not_NaN: "x \<noteq> NaN \<Longrightarrow> Math_max (Fin a) x \<noteq> NaN"
  by (cases x) simp_all

lemma js_gt_imp_not_NaN: "js_gt a b \<Longrightarrow> a \<noteq> NaN \<and> b \<noteq> NaN"
  by (cases a; cases b) simp_all

lemma plus_not_NaN_left: "a + b \<noteq> NaN \<Longrightarrow> a \<noteq> NaN" for a b :: jsnum
  by (cases a; cases b) simp_all

text \<open>The clamp of a value that is not \<open>NaN\<close> between finite bounds.\<close>

lemma clamp_not_NaN:
  assumes "x \<noteq> NaN"
  shows "\<exists>y. Math_min (Fin u) (Math_max (Fin l) x) = Fin (min u (max l y)) \<and>
             (\<forall>z. x = Fin z \<longrightarrow> y = z)"
proof (cases x)
  case (Fin z)
  then show ?thesis by (simp add: Math_max_Fin Math_min_Fin)
next
  case PInf
  have "Math_min (Fin u) (Math_max (Fin l) PInf) = Fin (min u (max l (max l u)))" by simp
  then show ?thesis using PInf by blast
next
  case NInf
  have "Math_min (Fin u) (Math_max (Fin l) NInf) = Fin (min u (max l l))"
    by (simp add: min_def)
  then show ?thesis using NInf by blast
next
  case NaN
  with assms show ?thesis by simp
qed

subsection \<open>The loop\<close>

lemma lp_loop_done: "length coeffs \<le> i \<Longrightarrow> lp_loop opts coeffs lower upper m i cum sol = sol"
  by (subst lp_loop.simps) simp

lemma lp_loop_step:
  "i < length coeffs \<Longrightarrow>
   lp_loop opts coeffs lower upper m i cum sol =
   lp_loop opts coeffs lower upper m (Suc i)
     (cum + lp_period opts m (js_nth coeffs i) (js_nth lower i) (js_nth upper i)
              (js_nth (map Fin cumCapacity) i) cum)
     (js_set sol i (lp_period opts m (js_nth coeffs i) (js_nth lower i) (js_nth upper i)
              (js_nth (map Fin cumCapacity) i) cum))"
  by (subst lp_loop.simps) (simp add: Let_def js_nth_js_set)

lemma lp_loop_invariant:
  assumes "I i cum sol"
    and "length sol = length coeffs"
    and "i \<le> length coeffs"
    and step: "\<And>j c s. j < length coeffs \<Longrightarrow> length s = length coeffs \<Longrightarrow> I j c s \<Longrightarrow>
      I (Suc j)
        (c + lp_period opts m (js_nth coeffs j) (js_nth lower j) (js_nth upper j)
               (js_nth (map Fin cumCapacity) j) c)
        (s[j := lp_period opts m (js_nth coeffs j) (js_nth lower j) (js_nth upper j)
               (js_nth (map Fin cumCapacity) j) c])"
  shows "\<exists>cum'. I (length coeffs) cum' (lp_loop opts coeffs lower upper m i cum sol)"
  using assms(1-3)
proof (induction "length coeffs - i" arbitrary: i cum sol)
  case 0
  then show ?case by (auto simp: lp_loop_done)
next
  case (Suc d)
  let ?v = "lp_period opts m (js_nth coeffs i) (js_nth lower i) (js_nth upper i)
             (js_nth (map Fin cumCapacity) i) cum"
  from Suc.hyps(2) have lt: "i < length coeffs" by simp
  have inv: "I (Suc i) (cum + ?v) (sol[i := ?v])"
    using step[OF lt Suc.prems(2) Suc.prems(1)] .
  have "\<exists>cum'. I (length coeffs) cum'
          (lp_loop opts coeffs lower upper m (Suc i) (cum + ?v) (sol[i := ?v]))"
    using Suc.hyps(2) lt Suc.prems(2) by (intro Suc.hyps(1)[OF _ inv]) simp_all
  then show ?case
    using lt Suc.prems(2) by (simp add: lp_loop_step js_set_in_range)
qed

lemma lp_loop_length:
  assumes "length sol = length coeffs" "i \<le> length coeffs"
  shows "length (lp_loop opts coeffs lower upper m i cum sol) = length coeffs"
proof -
  have "\<exists>cum'::jsnum. length (lp_loop opts coeffs lower upper m i cum sol) = length coeffs"
    by (rule lp_loop_invariant[where I = "\<lambda>j c s. length s = length coeffs"])
       (use assms in simp_all)
  then show ?thesis by simp
qed

text \<open>
  Every entry of the result is the value of its period at the running total, which is the
  sum, in the order of the loop, of the entries before it.
\<close>

lemma lp_loop_nth:
  assumes "length sol = length coeffs" "k < length coeffs"
  shows "lp_loop opts coeffs lower upper m 0 cum sol ! k =
           lp_period opts m (js_nth coeffs k) (js_nth lower k) (js_nth upper k)
             (js_nth (map Fin cumCapacity) k)
             (foldl (+) cum (take k (lp_loop opts coeffs lower upper m 0 cum sol)))"
proof -
  let ?per = "\<lambda>j c. lp_period opts m (js_nth coeffs j) (js_nth lower j) (js_nth upper j)
                  (js_nth (map Fin cumCapacity) j) c"
  let ?I = "\<lambda>j c s. c = foldl (+) cum (take j s) \<and>
              (\<forall>k<j. s ! k = ?per k (foldl (+) cum (take k s)))"
  have "\<exists>cum'. ?I (length coeffs) cum' (lp_loop opts coeffs lower upper m 0 cum sol)"
  proof (rule lp_loop_invariant[where I = ?I])
    show "?I 0 cum sol" by simp
    show "length sol = length coeffs" by fact
    show "0 \<le> length coeffs" by simp
  next
    fix j c s
    assume j: "j < length coeffs" and len: "length s = length coeffs" and inv: "?I j c s"
    have tk: "take k (s[j := v]) = take k s" if "k \<le> j" for k v
      using that by simp
    have tj: "take (Suc j) (s[j := v]) = take j s @ [v]" for v
      using j len by (simp add: take_Suc_conv_app_nth)
    show "?I (Suc j) (c + ?per j c) (s[j := ?per j c])"
    proof (intro conjI allI impI)
      show "c + ?per j c = foldl (+) cum (take (Suc j) (s[j := ?per j c]))"
        using inv by (simp add: tj)
    next
      fix k assume "k < Suc j"
      then consider "k < j" | "k = j" by linarith
      then show "s[j := ?per j c] ! k = ?per k (foldl (+) cum (take k (s[j := ?per j c])))"
      proof cases
        case 1
        then show ?thesis using inv by (simp add: tk)
      next
        case 2
        then show ?thesis using inv j len by (simp add: tk)
      qed
    qed
  qed
  then show ?thesis using assms(2) by blast
qed

lemma lp_loop_cong:
  assumes "\<forall>k<length coeffs. js_nth lower k = js_nth lower' k"
    and "\<forall>k<length coeffs. js_nth upper k = js_nth upper' k"
  shows "lp_loop opts coeffs lower upper m i cum sol = lp_loop opts coeffs lower' upper' m i cum sol"
proof (induction "length coeffs - i" arbitrary: i cum sol)
  case 0
  then show ?case by (simp add: lp_loop_done)
next
  case (Suc d)
  then have lt: "i < length coeffs" by simp
  show ?case
    using Suc.hyps(2) assms lt
    by (simp add: lp_loop_step[OF lt, of _ lower] lp_loop_step[OF lt, of _ lower'] Suc.hyps(1))
qed

lemma lp_loop_minimize:
  assumes "\<not> maximize o1" "\<not> maximize o2"
  shows "lp_loop o1 coeffs lower upper m i cum sol = lp_loop o2 coeffs lower upper m i cum sol"
proof (induction "length coeffs - i" arbitrary: i cum sol)
  case 0
  then show ?case by (simp add: lp_loop_done)
next
  case (Suc d)
  then have lt: "i < length coeffs" by simp
  have per: "lp_period o1 m c lb ub cap cu = lp_period o2 m c lb ub cap cu" for c lb ub cap cu
    using assms by (simp add: lp_period_def lp_target_def)
  show ?case
    using Suc.hyps(2) lt
    by (simp add: lp_loop_step[OF lt, of o1] lp_loop_step[OF lt, of o2] per Suc.hyps(1))
qed

subsection \<open>The largest absolute coefficient\<close>

lemma lp_maxAbs_error:
  "lp_maxAbs argLimit coeffs = (if argLimit \<le> length coeffs then Inl RangeError
     else Inr (foldr Math_max (map Math_abs coeffs @ [Fin 1]) NInf))"
  by (auto simp: lp_maxAbs_def Math_max_spread_def)

lemma foldr_maxAbs_Fin:
  "\<exists>M. foldr Math_max (map Math_abs (map Fin cs) @ [Fin 1]) NInf = Fin M \<and> 1 \<le> M \<and>
       (\<forall>c\<in>set cs. \<bar>c\<bar> \<le> M)"
proof (induction cs)
  case Nil
  show ?case by simp
next
  case (Cons c cs)
  then obtain M where M: "foldr Math_max (map Math_abs (map Fin cs) @ [Fin 1]) NInf = Fin M"
    "1 \<le> M" "\<forall>c\<in>set cs. \<bar>c\<bar> \<le> M"
    by blast
  have "foldr Math_max (map Math_abs (map Fin (c # cs)) @ [Fin 1]) NInf = Fin (max \<bar>c\<bar> M)"
    using M(1) by (simp add: max_def)
  moreover have "1 \<le> max \<bar>c\<bar> M" using M(2) by simp
  moreover have "\<forall>x\<in>set (c # cs). \<bar>x\<bar> \<le> max \<bar>c\<bar> M" using M(3) by auto
  ultimately show ?case by blast
qed

lemma lp_maxAbs_Fin:
  assumes "length cs < argLimit"
  shows "\<exists>M. lp_maxAbs argLimit (map Fin cs) = Inr (Fin M) \<and> 1 \<le> M \<and> (\<forall>c\<in>set cs. \<bar>c\<bar> \<le> M)"
  using assms foldr_maxAbs_Fin[of cs] by (simp add: lp_maxAbs_error)

subsection \<open>Rounded results between representable bounds\<close>

lemma fl_1 [simp]: "fl 1 = 1" and fl_2 [simp]: "fl 2 = 2" and fl_m1 [simp]: "fl (- 1) = - 1"
  using fl_int[of 1] fl_int[of 2] fl_int[of "- 1"] by simp_all

lemma fl_half [simp]: "fl (1 / 2) = 1 / 2"
  using fl_half_int[of 1] by simp

lemma to_double_between:
  assumes "lo \<le> x" "x \<le> hi" "fl lo = lo" "fl hi = hi" "- (2 ^ 53) \<le> lo" "hi \<le> 2 ^ 53"
  shows "to_double x = Fin (fl x)" "lo \<le> fl x" "fl x \<le> hi"
proof -
  have "- ((2 :: real) ^ 1024) < - (2 ^ 53)" "(2 :: real) ^ 53 < 2 ^ 1024" by simp_all
  then have b: "- (2 ^ 1024) < lo" "hi < 2 ^ 1024" using assms(5,6) by linarith+
  show "to_double x = Fin (fl x)" "lo \<le> fl x" "fl x \<le> hi"
    using to_double_bounded[OF assms(1-4) b] by simp_all
qed

lemma to_double_unit:
  assumes "0 \<le> x" "x \<le> 1"
  shows "to_double x = Fin (fl x)" "0 \<le> fl x" "fl x \<le> 1"
  using to_double_between[of 0 x 1] assms by simp_all

lemma js_lit_unit: "0 \<le> x \<Longrightarrow> x \<le> 1 \<Longrightarrow> js_lit x = Fin (fl x)"
  by (simp add: js_lit_def to_double_unit)

lemma js_lit_half: "js_lit 0.5 = Fin (1 / 2)"
  using js_lit_unit[of "0.5"] by simp

subsection \<open>The rank and the target of a period\<close>

lemma rank_Fin:
  assumes "\<bar>c\<bar> \<le> M" "1 \<le> M"
  shows "\<exists>r. (Fin c / Fin M + Fin 1) / Fin 2 = Fin r \<and> 0 \<le> r \<and> r \<le> 1 \<and> (0 < c \<longrightarrow> 1 / 2 \<le> r)"
proof -
  from assms have M: "M \<noteq> 0" "0 < M" by simp_all
  have q: "- 1 \<le> c / M" "c / M \<le> 1"
    using assms by (simp_all add: pos_le_divide_eq pos_divide_le_eq)
  have q1: "to_double (c / M) = Fin (fl (c / M))" "- 1 \<le> fl (c / M)" "fl (c / M) \<le> 1"
    using to_double_between[of "- 1" "c / M" 1] q by simp_all
  let ?s = "fl (c / M) + 1"
  have s1: "to_double ?s = Fin (fl ?s)" "0 \<le> fl ?s" "fl ?s \<le> 2"
    using to_double_between[of 0 ?s 2] q1(2,3) by simp_all
  let ?r = "fl ?s / 2"
  have r1: "to_double ?r = Fin (fl ?r)" "0 \<le> fl ?r" "fl ?r \<le> 1"
    using to_double_unit[of ?r] s1(2,3) by simp_all
  have eq: "(Fin c / Fin M + Fin 1) / Fin 2 = Fin (fl ?r)"
    using M(1) by (simp add: q1(1) s1(1) r1(1))
  have "1 / 2 \<le> fl ?r" if "0 < c"
  proof -
    from that M(2) have "0 \<le> c / M" by simp
    then have "0 \<le> fl (c / M)" by (rule fl_nonneg)
    then have "1 \<le> ?s" by simp
    then have "1 \<le> fl ?s" using fl_ge[of 1 ?s] by simp
    then have "1 / 2 \<le> ?r" by simp
    then show ?thesis using fl_ge[of "1 / 2" ?r] by simp
  qed
  with eq r1(2,3) show ?thesis by blast
qed

lemma fl_08_unit: "0 \<le> fl 0.8" "fl 0.8 \<le> 1"
  using to_double_unit[of "0.8"] by simp_all

text \<open>
  For a rank in \<open>[0, 1]\<close> the target is \<open>lb + (ub - lb) * f\<close> for a finite fraction \<open>f\<close> in
  \<open>[0, 1]\<close>, which is the one the options select.
\<close>

lemma lp_fraction:
  assumes "0 \<le> r" "r \<le> 1"
  shows "\<exists>f. 0 \<le> f \<and> f \<le> 1 \<and> (\<forall>lb ub. lp_target opts (Fin r) lb ub = lb + (ub - lb) * Fin f) \<and>
           (maximize opts \<and> strategy opts = ''aggressive'' \<longrightarrow> f = fl (r powr fl 0.8)) \<and>
           (maximize opts \<and> strategy opts = ''conservative'' \<longrightarrow> f = fl 0.15)"
proof (cases "maximize opts")
  case False
  have "to_double (1 - r) = Fin (fl (1 - r))" "0 \<le> fl (1 - r)" "fl (1 - r) \<le> 1"
    using to_double_unit[of "1 - r"] assms by simp_all
  then show ?thesis using False
    by (intro exI[of _ "fl (1 - r)"]) (simp add: lp_target_def)
next
  case True
  consider (a) "strategy opts = ''aggressive''"
    | (c) "strategy opts \<noteq> ''aggressive''" "strategy opts = ''conservative''"
    | (b) "strategy opts \<noteq> ''aggressive''" "strategy opts \<noteq> ''conservative''"
    by blast
  then show ?thesis
  proof cases
    case a
    have "0 \<le> r powr fl 0.8" by simp
    moreover have "r powr fl 0.8 \<le> 1" using assms fl_08_unit by (simp add: powr_le1)
    ultimately have "to_double (r powr fl 0.8) = Fin (fl (r powr fl 0.8))"
      "0 \<le> fl (r powr fl 0.8)" "fl (r powr fl 0.8) \<le> 1"
      using to_double_unit[of "r powr fl 0.8"] by simp_all
    then show ?thesis using True a assms
      by (intro exI[of _ "fl (r powr fl 0.8)"]) (simp add: lp_target_def)
  next
    case c
    have "js_lit 0.15 = Fin (fl 0.15)" "0 \<le> fl 0.15" "fl 0.15 \<le> 1"
      using to_double_unit[of "0.15"] by (simp_all add: js_lit_def)
    then show ?thesis using True c
      by (intro exI[of _ "fl 0.15"]) (simp add: lp_target_def)
  next
    case b
    have h: "to_double (1 / 2 * r) = Fin (fl (1 / 2 * r))" "0 \<le> fl (1 / 2 * r)" "fl (1 / 2 * r) \<le> 1 / 2"
      using to_double_between[of 0 "1 / 2 * r" "1 / 2"] assms by simp_all
    have l: "js_lit 0.35 = Fin (fl 0.35)" "0 \<le> fl 0.35" "fl 0.35 \<le> 1 / 2"
      using to_double_between[of 0 "0.35" "1 / 2"] by (simp_all add: js_lit_def)
    let ?f = "fl 0.35 + fl (1 / 2 * r)"
    have f: "to_double ?f = Fin (fl ?f)" "0 \<le> fl ?f" "fl ?f \<le> 1"
      using to_double_unit[of ?f] h(2,3) l(2,3) by simp_all
    have "js_lit 0.35 + js_lit 0.5 * Fin r = Fin (fl ?f)"
      using l(1) js_lit_half h(1) f(1) by simp
    then show ?thesis using True b f(2,3)
      by (intro exI[of _ "fl ?f"]) (simp add: lp_target_def)
  qed
qed

text \<open>When \<open>ub - lb\<close> does not overflow, the target is not \<open>NaN\<close>.\<close>

lemma target_not_NaN:
  assumes "Fin u - Fin l = Fin d"
  shows "Fin l + (Fin u - Fin l) * Fin f \<noteq> NaN"
  using assms by (simp add: Fin_plus_not_NaN)

text \<open>For integer bounds \<open>l \<le> u\<close> the target is finite and lies between the bounds.\<close>

lemma target_between:
  assumes l: "l \<in> \<int>" "\<bar>l\<bar> \<le> 2 ^ 52" and u: "u \<in> \<int>" "\<bar>u\<bar> \<le> 2 ^ 52" and lu: "l \<le> u"
    and f: "0 \<le> f" "f \<le> 1"
  shows "Fin l + (Fin u - Fin l) * Fin f = Fin (fl (l + fl ((u - l) * f)))"
    "l \<le> fl (l + fl ((u - l) * f))" "fl (l + fl ((u - l) * f)) \<le> u"
proof -
  have b52: "(2 :: real) ^ 52 \<le> 2 ^ 53" by simp
  have dI: "u - l \<in> \<int>" using l(1) u(1) by simp
  have db: "\<bar>u - l\<bar> \<le> 2 ^ 53" using l(2) u(2) by simp
  have d: "Fin u - Fin l = Fin (u - l)" using dI db by (simp add: to_double_Ints)
  have fld: "fl (u - l) = u - l" using dI db by (rule fl_Ints)
  have p0: "0 \<le> (u - l) * f" using lu f by simp
  have p1: "(u - l) * f \<le> u - l" using lu f by (intro mult_left_le) simp_all
  have p: "to_double ((u - l) * f) = Fin (fl ((u - l) * f))" "0 \<le> fl ((u - l) * f)"
    "fl ((u - l) * f) \<le> u - l"
    using to_double_between[of 0 "(u - l) * f" "u - l"] p0 p1 fld db by simp_all
  have fll: "fl l = l" "fl u = u" using l u b52 by (simp_all add: fl_Ints)
  have t: "to_double (l + fl ((u - l) * f)) = Fin (fl (l + fl ((u - l) * f)))"
    "l \<le> fl (l + fl ((u - l) * f))" "fl (l + fl ((u - l) * f)) \<le> u"
    using to_double_between[of l "l + fl ((u - l) * f)" u] p(2,3) fll l(2) u(2) b52 by simp_all
  show "Fin l + (Fin u - Fin l) * Fin f = Fin (fl (l + fl ((u - l) * f)))"
    using d p(1) t(1) by simp
  show "l \<le> fl (l + fl ((u - l) * f))" "fl (l + fl ((u - l) * f)) \<le> u" by fact+
qed

subsection \<open>Rounding to an integer\<close>

lemma round_Ints: "x \<in> \<int> \<Longrightarrow> of_int (round x) = x"
  by (auto elim!: Ints_cases)

lemma round_between:
  assumes "l \<in> \<int>" "u \<in> \<int>" "l \<le> t" "t \<le> u"
  shows "l \<le> of_int (round t)" "of_int (round t) \<le> u"
proof -
  obtain a b where ab: "l = of_int a" "u = of_int b"
    using assms(1,2) by (auto elim!: Ints_cases)
  have "round l \<le> round t" "round t \<le> round u" using assms(3,4) by (auto intro: round_mono)
  then show "l \<le> of_int (round t)" "of_int (round t) \<le> u"
    using ab by simp_all
qed

lemma round_less_half:
  assumes "z \<in> \<int>" "t < z + 1 / 2"
  shows "of_int (round t) \<le> z"
proof -
  obtain k where k: "z = of_int k" using assms(1) by (auto elim!: Ints_cases)
  have "t + 1 / 2 < of_int (k + 1)" using assms(2) k by simp
  then have "\<lfloor>t + 1 / 2\<rfloor> < k + 1" by (simp only: floor_less_iff)
  then show ?thesis using k by (simp add: round_def)
qed

lemma cumCapacity_Ints: "i < length cumCapacity \<Longrightarrow> cumCapacity ! i \<in> \<int>"
proof -
  have "\<forall>x\<in>set cumCapacity. x \<in> \<int>" by (simp add: cumCapacity_def)
  then show "i < length cumCapacity \<Longrightarrow> cumCapacity ! i \<in> \<int>" by simp
qed

lemma cumCapacity_bound: "i < length cumCapacity \<Longrightarrow> \<bar>cumCapacity ! i\<bar> \<le> 2 ^ 25"
proof -
  have "\<forall>x\<in>set cumCapacity. \<bar>x\<bar> \<le> 2 ^ 25" by (simp add: cumCapacity_def)
  then show "i < length cumCapacity \<Longrightarrow> \<bar>cumCapacity ! i\<bar> \<le> 2 ^ 25" by simp
qed

lemma cap_cases:
  "js_nth (map Fin cumCapacity) i = NaN \<or>
   (\<exists>cp. js_nth (map Fin cumCapacity) i = Fin cp \<and> cp \<in> \<int> \<and> \<bar>cp\<bar> \<le> 2 ^ 25 \<and>
         i < length cumCapacity \<and> cp = cumCapacity ! i)"
  using cumCapacity_Ints[of i] cumCapacity_bound[of i] by (auto simp: js_nth_def)

subsection \<open>The cumulative check and the clamp on integer bounds\<close>

lemma lp_clamp_integer:
  assumes l: "l \<in> \<int>" and u: "u \<in> \<int>" and t: "l \<le> t" "t \<le> u"
    and s: "s \<in> \<int>" "\<bar>s\<bar> + max \<bar>l\<bar> \<bar>u\<bar> \<le> 2 ^ 52"
    and cap: "cap = NaN \<or> (\<exists>cp. cap = Fin cp \<and> cp \<in> \<int> \<and> \<bar>cp\<bar> \<le> 2 ^ 25)"
  shows "\<exists>w. lp_clamp (Fin l) (Fin u) cap (Fin s) (Fin t) = Fin w \<and> w \<in> \<int> \<and> l \<le> w \<and> w \<le> u \<and>
           (\<forall>cp. cap = Fin cp \<longrightarrow> s + w \<le> max cp (s + l)) \<and>
           ((\<forall>cp. cap = Fin cp \<longrightarrow> s + t \<le> cp) \<longrightarrow> w = of_int (round t)) \<and>
           (\<forall>cp. cap = Fin cp \<and> cp + 1 / 2 \<le> s + t \<longrightarrow> w = min u (max l (cp - s)))"
proof -
  have lu: "l \<le> u" using t by simp
  have tb: "\<bar>t\<bar> \<le> max \<bar>l\<bar> \<bar>u\<bar>" using t by (simp add: abs_le_iff max_def) linarith
  have st: "- (2 ^ 52) \<le> s + t" "s + t \<le> 2 ^ 52" using tb s(2) by (simp_all add: abs_le_iff) linarith+
  have e: "Fin s + Fin t = Fin (fl (s + t))"
    using to_double_between(1)[of "- (2 ^ 52)" "s + t" "2 ^ 52"] st fl_pow2[of 52]
      fl_minus[of "2 ^ 52"] by simp
  have rt: "l \<le> of_int (round t)" "of_int (round t) \<le> u"
    using round_between[OF l u t] by simp_all
  have plain: "Math_round (Math_min (Fin u) (Math_max (Fin l) (Fin t))) = Fin (of_int (round t))"
    using t by (simp add: Math_max_Fin Math_min_Fin min_def max_def)
  from cap show ?thesis
  proof
    assume "cap = NaN"
    then have "lp_clamp (Fin l) (Fin u) cap (Fin s) (Fin t) = Fin (of_int (round t))"
      using plain by (simp add: lp_clamp_def Let_def)
    then show ?thesis using rt \<open>cap = NaN\<close> by simp
  next
    assume "\<exists>cp. cap = Fin cp \<and> cp \<in> \<int> \<and> \<bar>cp\<bar> \<le> 2 ^ 25"
    then obtain cp where cp: "cap = Fin cp" "cp \<in> \<int>" "\<bar>cp\<bar> \<le> 2 ^ 25" by blast
    have p25: "(2 :: real) ^ 25 \<le> 2 ^ 52" by simp
    have flcp: "fl cp = cp" using cp(2,3) by (intro fl_Ints) simp_all
    show ?thesis
    proof (cases "cp < fl (s + t)")
      case True
      have nle: "\<not> s + t \<le> cp"
      proof
        assume "s + t \<le> cp"
        then have "fl (s + t) \<le> cp" using flcp by (rule fl_le)
        with True show False by simp
      qed
      have dI: "cp - s \<in> \<int>" using cp(2) s(1) by simp
      have "\<bar>s\<bar> \<le> 2 ^ 52" using s(2) by (simp add: max_def split: if_splits)
      then have "\<bar>cp - s\<bar> \<le> 2 ^ 25 + 2 ^ 52" using cp(3) by linarith
      also have "\<dots> \<le> (2 :: real) ^ 53" by simp
      finally have d: "Fin cp - Fin s = Fin (cp - s)" using dI by (simp add: to_double_Ints)
      define y where "y = min u (max l (max l (cp - s)))"
      have yI: "y \<in> \<int>" using l u dI by (simp add: y_def min_def max_def)
      have "lp_clamp (Fin l) (Fin u) cap (Fin s) (Fin t) = Fin (of_int (round y))"
        using True cp(1) e d by (simp add: lp_clamp_def Let_def Math_max_Fin Math_min_Fin y_def)
      then have "lp_clamp (Fin l) (Fin u) cap (Fin s) (Fin t) = Fin y"
        using round_Ints[OF yI] by simp
      moreover have "l \<le> y" "y \<le> u" using lu by (simp_all add: y_def)
      moreover have "s + y \<le> max cp (s + l)" by (simp add: y_def min_def max_def)
      moreover have "y = min u (max l (cp - s))" by (simp add: y_def)
      ultimately show ?thesis using yI cp(1) nle by auto
    next
      case False
      have c: "lp_clamp (Fin l) (Fin u) cap (Fin s) (Fin t) = Fin (of_int (round t))"
        using False cp(1) e plain by (simp add: lp_clamp_def Let_def)
      obtain k where k: "cp = of_int k" using cp(2) by (auto elim!: Ints_cases)
      have kb: "\<bar>2 * k + 1\<bar> < 2 ^ 53"
      proof -
        have "\<bar>of_int k :: real\<bar> \<le> of_int (2 ^ 25)" using cp(3) k by simp
        then have "\<bar>k\<bar> \<le> 2 ^ 25" by (simp only: of_int_abs[symmetric] of_int_le_iff)
        then show ?thesis by simp
      qed
      have half: "fl (cp + 1 / 2) = cp + 1 / 2"
        using fl_half_int[OF kb] k by (simp add: field_simps)
      have lt: "s + t < cp + 1 / 2"
      proof (rule ccontr)
        assume "\<not> s + t < cp + 1 / 2"
        then have "cp + 1 / 2 \<le> s + t" by simp
        then have "cp + 1 / 2 \<le> fl (s + t)" using half by (rule fl_ge)
        with False show False by simp
      qed
      have "of_int (round t) \<le> cp - s"
      proof (rule round_less_half)
        show "cp - s \<in> \<int>" using cp(2) s(1) by simp
        show "t < cp - s + 1 / 2" using lt by simp
      qed
      then have "s + of_int (round t) \<le> max cp (s + l)" by simp
      moreover have "\<not> cp + 1 / 2 \<le> s + t" using lt by simp
      ultimately show ?thesis using c rt cp(1) by auto
    qed
  qed
qed

text \<open>One period with a finite coefficient and integer bounds.\<close>

lemma lp_period_integer:
  assumes c: "\<bar>c\<bar> \<le> M" "1 \<le> M"
    and l: "l \<in> \<int>" and u: "u \<in> \<int>" and lu: "l \<le> u"
    and s: "s \<in> \<int>" "\<bar>s\<bar> + max \<bar>l\<bar> \<bar>u\<bar> \<le> 2 ^ 52"
    and cap: "cap = NaN \<or> (\<exists>cp. cap = Fin cp \<and> cp \<in> \<int> \<and> \<bar>cp\<bar> \<le> 2 ^ 25)"
  shows "\<exists>w r f. lp_period opts (Fin M) (Fin c) (Fin l) (Fin u) cap (Fin s) = Fin w \<and>
           w \<in> \<int> \<and> l \<le> w \<and> w \<le> u \<and>
           (\<forall>cp. cap = Fin cp \<longrightarrow> s + w \<le> max cp (s + l)) \<and>
           0 \<le> r \<and> r \<le> 1 \<and> (0 < c \<longrightarrow> 1 / 2 \<le> r) \<and> 0 \<le> f \<and> f \<le> 1 \<and>
           (maximize opts \<and> strategy opts = ''aggressive'' \<longrightarrow> f = fl (r powr fl 0.8)) \<and>
           (maximize opts \<and> strategy opts = ''conservative'' \<longrightarrow> f = fl 0.15) \<and>
           ((\<forall>cp. cap = Fin cp \<longrightarrow> s + fl (l + fl ((u - l) * f)) \<le> cp) \<longrightarrow>
              w = of_int (round (fl (l + fl ((u - l) * f))))) \<and>
           (\<forall>cp. cap = Fin cp \<and> cp + 1 / 2 \<le> s + fl (l + fl ((u - l) * f)) \<longrightarrow>
              w = min u (max l (cp - s)))"
proof -
  obtain r where r: "(Fin c / Fin M + Fin 1) / Fin 2 = Fin r" "0 \<le> r" "r \<le> 1"
    "0 < c \<longrightarrow> 1 / 2 \<le> r"
    using rank_Fin[OF c] by blast
  obtain f where f: "0 \<le> f" "f \<le> 1"
    "\<forall>lb ub. lp_target opts (Fin r) lb ub = lb + (ub - lb) * Fin f"
    "maximize opts \<and> strategy opts = ''aggressive'' \<longrightarrow> f = fl (r powr fl 0.8)"
    "maximize opts \<and> strategy opts = ''conservative'' \<longrightarrow> f = fl 0.15"
    using lp_fraction[OF r(2,3), of opts] by blast
  have lb: "\<bar>l\<bar> \<le> 2 ^ 52" "\<bar>u\<bar> \<le> 2 ^ 52" using s(2) by (simp_all add: max_def split: if_splits)
  define t where "t = fl (l + fl ((u - l) * f))"
  have t: "Fin l + (Fin u - Fin l) * Fin f = Fin t" "l \<le> t" "t \<le> u"
    using target_between[OF l lb(1) u lb(2) lu f(1,2)] by (simp_all add: t_def)
  have per: "lp_period opts (Fin M) (Fin c) (Fin l) (Fin u) cap (Fin s) =
             lp_clamp (Fin l) (Fin u) cap (Fin s) (Fin t)"
    using r(1) f(3) t(1) by (simp add: lp_period_def Let_def)
  obtain w where w: "lp_clamp (Fin l) (Fin u) cap (Fin s) (Fin t) = Fin w" "w \<in> \<int>" "l \<le> w" "w \<le> u"
    "\<forall>cp. cap = Fin cp \<longrightarrow> s + w \<le> max cp (s + l)"
    "(\<forall>cp. cap = Fin cp \<longrightarrow> s + t \<le> cp) \<longrightarrow> w = of_int (round t)"
    "\<forall>cp. cap = Fin cp \<and> cp + 1 / 2 \<le> s + t \<longrightarrow> w = min u (max l (cp - s))"
    using lp_clamp_integer[OF l u t(2,3) s cap] by blast
  have first: "lp_period opts (Fin M) (Fin c) (Fin l) (Fin u) cap (Fin s) = Fin w"
    using per w(1) by simp
  show ?thesis
    by (rule exI[of _ w], rule exI[of _ r], rule exI[of _ f])
       (intro conjI first w(2-5) r(2-4) f(1,2,4,5) w(6,7)[unfolded t_def])
qed

subsection \<open>One period with inverted bounds\<close>

lemma lp_period_inverted:
  assumes c: "\<bar>c\<bar> \<le> M" "1 \<le> M"
    and b: "\<bar>l\<bar> \<le> 2 ^ 1022" "\<bar>u\<bar> \<le> 2 ^ 1022" and ul: "u < l"
  shows "lp_period opts (Fin M) (Fin c) (Fin l) (Fin u) cap cum = Fin (of_int (round u))"
proof -
  obtain r where r: "(Fin c / Fin M + Fin 1) / Fin 2 = Fin r" "0 \<le> r" "r \<le> 1"
    using rank_Fin[OF c] by blast
  obtain f where f: "\<forall>lb ub. lp_target opts (Fin r) lb ub = lb + (ub - lb) * Fin f"
    using lp_fraction[OF r(2,3), of opts] by blast
  have "- (2 ^ 1023) \<le> u - l" "u - l \<le> 2 ^ 1023" using b by (simp_all add: abs_le_iff)
  then have d: "Fin u - Fin l = Fin (fl (u - l))"
    using to_double_bounded(1)[of "- (2 ^ 1023)" "u - l" "2 ^ 1023"] fl_pow2[of 1023]
      fl_minus[of "2 ^ 1023"] by simp
  define x0 where "x0 = Fin l + (Fin u - Fin l) * Fin f"
  have x0: "x0 \<noteq> NaN" unfolding x0_def using d by (simp add: Fin_plus_not_NaN)
  define x where "x = (if js_gt (cum + x0) cap then Math_max (Fin l) (cap - cum) else x0)"
  have "x \<noteq> NaN"
  proof (cases "js_gt (cum + x0) cap")
    case True
    then have "cum + x0 \<noteq> NaN" "cap \<noteq> NaN" using js_gt_imp_not_NaN by blast+
    then have "cum \<noteq> NaN" using plus_not_NaN_left by blast
    have "cap - cum \<noteq> NaN"
    proof (cases cap)
      case (Fin a)
      then show ?thesis using \<open>cum \<noteq> NaN\<close> by (simp add: Fin_minus_not_NaN)
    next
      case PInf
      with True show ?thesis by (cases "cum + x0") simp_all
    next
      case NInf
      with True show ?thesis by (cases cum; cases x0) simp_all
    next
      case NaN
      with \<open>cap \<noteq> NaN\<close> show ?thesis by simp
    qed
    then show ?thesis using True by (simp add: x_def Math_max_Fin_not_NaN)
  next
    case False
    then show ?thesis using x0 by (simp add: x_def)
  qed
  then obtain y where "Math_min (Fin u) (Math_max (Fin l) x) = Fin (min u (max l y))"
    using clamp_not_NaN by blast
  then have m: "Math_min (Fin u) (Math_max (Fin l) x) = Fin u" using ul by (simp add: min_def max_def)
  have tg: "lp_target opts (Fin r) (Fin l) (Fin u) = x0" using f by (simp only: x0_def)
  have "lp_period opts (Fin M) (Fin c) (Fin l) (Fin u) cap cum =
        Math_round (Math_min (Fin u) (Math_max (Fin l) x))"
    by (simp only: lp_period_def lp_clamp_def Let_def r(1) tg x_def)
  then show ?thesis by (simp only: m Math_round.simps)
qed

subsection \<open>A period without a bound\<close>

lemma lp_target_NaN: "lb = NaN \<or> ub = NaN \<Longrightarrow> lp_target opts rank lb ub = NaN"
  by (auto simp: lp_target_def)

lemma lp_clamp_NaN: "lp_clamp lb ub cap cum NaN = NaN"
  by (simp add: lp_clamp_def)

lemma lp_period_NaN: "lb = NaN \<or> ub = NaN \<Longrightarrow> lp_period opts m c lb ub cap cum = NaN"
  by (simp only: lp_period_def Let_def lp_target_NaN lp_clamp_NaN)

subsection \<open>The result of the heuristic\<close>

lemma solveLPHeuristic_error:
  "argLimit \<le> length coeffs \<Longrightarrow> solveLPHeuristic argLimit coeffs lower upper options = Inl RangeError"
  by (simp add: solveLPHeuristic_def lp_maxAbs_error)

lemma solveLPHeuristic_result:
  "length coeffs < argLimit \<Longrightarrow>
   \<exists>m. lp_maxAbs argLimit coeffs = Inr m \<and>
     solveLPHeuristic argLimit coeffs lower upper options =
       Inr \<lparr>solution = lp_loop options coeffs lower upper m 0 (Fin 0) (replicate (length coeffs) (Fin 0)),
            objective = js_dot coeffs
              (lp_loop options coeffs lower upper m 0 (Fin 0) (replicate (length coeffs) (Fin 0)))\<rparr>"
  by (simp add: solveLPHeuristic_def lp_maxAbs_error Let_def)

lemma solveLPHeuristic_Inr:
  assumes "solveLPHeuristic argLimit coeffs lower upper options = Inr r"
  shows "\<exists>m. lp_maxAbs argLimit coeffs = Inr m \<and>
           solution r = lp_loop options coeffs lower upper m 0 (Fin 0) (replicate (length coeffs) (Fin 0)) \<and>
           objective r = js_dot coeffs (solution r)"
proof (cases "lp_maxAbs argLimit coeffs")
  case (Inl e)
  with assms show ?thesis by (simp add: solveLPHeuristic_def)
next
  case (Inr m)
  with assms show ?thesis by (auto simp: solveLPHeuristic_def Let_def)
qed

subsection \<open>Evaluating the heuristic on concrete arrays\<close>

lemma to_double_dyadic:
  assumes "\<bar>k\<bar> < 2 ^ 53" "n \<le> 1074"
  shows "to_double (of_int k / 2 ^ n) = Fin (of_int k / 2 ^ n)"
proof (rule to_double_exact)
  show "fl (of_int k / 2 ^ n) = of_int k / 2 ^ n" using assms by (rule fl_div_pow2)
  have "\<bar>of_int k / 2 ^ n :: real\<bar> = \<bar>of_int k\<bar> / 2 ^ n" by simp
  also have "\<dots> \<le> \<bar>of_int k\<bar>"
  proof -
    have "(1 :: real) \<le> 2 ^ n" by simp
    then have "\<bar>of_int k :: real\<bar> * 1 \<le> \<bar>of_int k\<bar> * 2 ^ n" by (intro mult_left_mono) simp_all
    then show ?thesis by (simp add: divide_le_eq)
  qed
  also have "\<dots> < 2 ^ 53" using assms(1) by (simp only: of_int_abs[symmetric]) (simp only: of_int_less_numeral_power_cancel_iff)
  also have "(2 :: real) ^ 53 < 2 ^ 1024" by simp
  finally show "\<bar>of_int k / 2 ^ n :: real\<bar> < 2 ^ 1024" .
qed

lemma to_double_div2: "x \<in> \<int> \<Longrightarrow> \<bar>x\<bar> \<le> 2 ^ 52 \<Longrightarrow> to_double (x / 2) = Fin (x / 2)"
proof -
  assume "x \<in> \<int>" and b: "\<bar>x\<bar> \<le> 2 ^ 52"
  then obtain k where k: "x = of_int k" by (auto elim!: Ints_cases)
  with b have "\<bar>of_int k :: real\<bar> \<le> of_int (2 ^ 52)" by simp
  then have "\<bar>k\<bar> \<le> 2 ^ 52" by (simp only: of_int_abs[symmetric] of_int_le_iff)
  then have "\<bar>k\<bar> < 2 ^ 53" by simp
  then show ?thesis using to_double_dyadic[of k 1] k by simp
qed

lemma to_double_div4: "x \<in> \<int> \<Longrightarrow> \<bar>x\<bar> \<le> 2 ^ 52 \<Longrightarrow> to_double (x / 4) = Fin (x / 4)"
proof -
  assume "x \<in> \<int>" and b: "\<bar>x\<bar> \<le> 2 ^ 52"
  then obtain k where k: "x = of_int k" by (auto elim!: Ints_cases)
  with b have "\<bar>of_int k :: real\<bar> \<le> of_int (2 ^ 52)" by simp
  then have "\<bar>k\<bar> \<le> 2 ^ 52" by (simp only: of_int_abs[symmetric] of_int_le_iff)
  then have "\<bar>k\<bar> < 2 ^ 53" by simp
  then show ?thesis using to_double_dyadic[of k 2] k by simp
qed

lemma solveLPHeuristic_eval:
  assumes "lp_maxAbs argLimit cs = Inr m"
    and "lp_loop opts cs lo up m 0 (Fin 0) (replicate (length cs) (Fin 0)) = sol"
    and "js_dot cs sol = obj"
  shows "solveLPHeuristic argLimit cs lo up opts = Inr \<lparr>solution = sol, objective = obj\<rparr>"
  using assms by (simp add: solveLPHeuristic_def Let_def)

lemmas dot_eval = js_dot_def js_nth_Cons_0 js_nth_Cons_Suc js_nth_Nil to_double_Ints

lemmas lp_eval = lp_loop_step lp_loop_done lp_period_def lp_clamp_def lp_target_def js_set_def
  js_nth_Cons_0 js_nth_Cons_Suc js_nth_Nil cumCapacity_def lp_maxAbs_def Math_max_spread_def
  js_dot_def Let_def round_def to_double_Ints to_double_div2 to_double_div4

subsection \<open>Edits of the pairwise matrix\<close>

lemma updatePairwise_offdiag:
  assumes "i < length m" "j < length m" "j < length (m ! i)" "i < length (m ! j)" "i \<noteq> j"
  shows "updatePairwise i j pf m =
         Inr (m[i := (m ! i)[j := js_or pf (Fin 1)],
                j := (m ! j)[i := Fin 1 / js_or pf (Fin 1)]])"
  using assms by (simp add: updatePairwise_def Let_def js_set_def)

lemma updatePairwise_diag:
  assumes "i < length m" "i < length (m ! i)"
  shows "updatePairwise i i pf m = Inr (m[i := (m ! i)[i := js_or pf (Fin 1)]])"
  using assms by (simp add: updatePairwise_def Let_def js_set_def)

lemma js_or_one_cases:
  "js_or pf (Fin 1) = (if pf = NaN \<or> pf = Fin 0 then Fin 1 else pf)"
  by (cases pf) (simp_all add: js_or_def)

text \<open>The reciprocal of a positive number that is at least the smallest normal double.\<close>

lemma reciprocal_positive:
  assumes "1 / 2 ^ 1022 \<le> p" "p < 2 ^ 1024"
  shows "\<exists>q>0. Fin 1 / Fin p = Fin q"
proof -
  have p0: "0 < p" using assms(1) by (rule less_le_trans[rotated]) simp
  have lo: "1 / 2 ^ 1024 \<le> 1 / p"
    using assms(2) p0 by (intro divide_left_mono) simp_all
  have "1 / p \<le> 1 / (1 / 2 ^ 1022)"
    using assms(1) by (intro divide_left_mono) simp_all
  then have hi: "1 / p \<le> 2 ^ 1022" by simp
  have flo: "fl (1 / 2 ^ 1024) = 1 / 2 ^ 1024" using fl_div_pow2[of 1 1024] by simp
  have fhi: "fl (2 ^ 1022) = 2 ^ 1022" by (rule fl_pow2)
  have "- ((2 :: real) ^ 1024) < 1 / 2 ^ 1024"
    by (rule less_trans[of _ 0]) simp_all
  moreover have "(2 :: real) ^ 1022 < 2 ^ 1024" by simp
  ultimately have "to_double (1 / p) = Fin (fl (1 / p))" "1 / 2 ^ 1024 \<le> fl (1 / p)"
    using to_double_bounded[OF lo hi flo fhi] by simp_all
  moreover have "(0 :: real) < 1 / 2 ^ 1024" by simp
  ultimately have "Fin 1 / Fin p = Fin (fl (1 / p))" "0 < fl (1 / p)" using p0 by simp_all
  then show ?thesis by blast
qed

lemma updatePairwise_positive:
  assumes m: "length m = 3" "\<forall>row\<in>set m. length row = 3 \<and> (\<forall>x\<in>set row. \<exists>r>0. x = Fin r)"
    and ij: "i < 3" "j < 3"
    and pf: "pf = NaN \<or> pf = Fin 0 \<or> (\<exists>r. pf = Fin r \<and> 1 / 2 ^ 1022 \<le> r \<and> r < 2 ^ 1024)"
  shows "\<exists>m'. updatePairwise i j pf m = Inr m' \<and> length m' = 3 \<and>
           (\<forall>row\<in>set m'. length row = 3 \<and> (\<forall>x\<in>set row. \<exists>r>0. x = Fin r))"
proof -
  let ?p = "js_or pf (Fin 1)"
  have "\<exists>p. ?p = Fin p \<and> 1 / 2 ^ 1022 \<le> p \<and> p < 2 ^ 1024"
  proof (cases "pf = NaN \<or> pf = Fin 0")
    case True
    then have "?p = Fin 1" by (simp add: js_or_one_cases)
    moreover have "1 / 2 ^ 1022 \<le> (1 :: real)" "(1 :: real) < 2 ^ 1024" by simp_all
    ultimately show ?thesis by blast
  next
    case False
    with pf obtain r where r: "pf = Fin r" "1 / 2 ^ 1022 \<le> r" "r < 2 ^ 1024" by auto
    with False have "?p = Fin r" by (simp add: js_or_def)
    with r show ?thesis by blast
  qed
  then obtain p where p: "?p = Fin p" "1 / 2 ^ 1022 \<le> p" "p < 2 ^ 1024" by blast
  have p0: "0 < p" using p(2) by (rule less_le_trans[rotated]) simp
  obtain q where q: "0 < q" "Fin 1 / ?p = Fin q"
    using reciprocal_positive[OF p(2,3)] p(1) by auto
  have rows: "length (m ! k) = 3" "\<forall>x\<in>set (m ! k). \<exists>r>0. x = Fin r" if "k < 3" for k
    using m that by (auto simp: all_set_conv_all_nth)
  have upd: "length (r[k := v]) = 3 \<and> (\<forall>x\<in>set (r[k := v]). \<exists>r>0. x = Fin r)"
    if "length r = 3" "\<forall>x\<in>set r. \<exists>r>0. x = Fin r" "\<exists>r>0. v = Fin r" for r k v
    using that set_update_subset_insert[of r k v] by auto
  have pp: "\<exists>r>0. ?p = Fin r" using p(1) p0 by blast
  have qq: "\<exists>r>0. Fin 1 / ?p = Fin r" using q by blast
  show ?thesis
  proof (cases "i = j")
    case True
    let ?m' = "m[i := (m ! i)[i := ?p]]"
    have "updatePairwise i j pf m = Inr ?m'"
      using True ij m(1) rows(1)[OF ij(1)] by (simp add: updatePairwise_diag)
    moreover have "length ?m' = 3" using m(1) by simp
    moreover have "\<forall>row\<in>set ?m'. length row = 3 \<and> (\<forall>x\<in>set row. \<exists>r>0. x = Fin r)"
    proof
      fix row assume "row \<in> set ?m'"
      then have "row = (m ! i)[i := ?p] \<or> row \<in> set m"
        using set_update_subset_insert[of m i "(m ! i)[i := ?p]"] by auto
      then show "length row = 3 \<and> (\<forall>x\<in>set row. \<exists>r>0. x = Fin r)"
        using upd[OF rows[OF ij(1)] pp, of i] m(2) by auto
    qed
    ultimately show ?thesis by blast
  next
    case False
    let ?m' = "m[i := (m ! i)[j := ?p], j := (m ! j)[i := Fin 1 / ?p]]"
    have "updatePairwise i j pf m = Inr ?m'"
      using False ij m(1) rows(1)[OF ij(1)] rows(1)[OF ij(2)]
      by (simp add: updatePairwise_offdiag)
    moreover have "length ?m' = 3" using m(1) by simp
    moreover have "\<forall>row\<in>set ?m'. length row = 3 \<and> (\<forall>x\<in>set row. \<exists>r>0. x = Fin r)"
    proof
      fix row assume "row \<in> set ?m'"
      then have "row = (m ! j)[i := Fin 1 / ?p] \<or> row \<in> set (m[i := (m ! i)[j := ?p]])"
        using set_update_subset_insert[of "m[i := (m ! i)[j := ?p]]" j "(m ! j)[i := Fin 1 / ?p]"]
        by auto
      then have "row = (m ! j)[i := Fin 1 / ?p] \<or> row = (m ! i)[j := ?p] \<or> row \<in> set m"
        using set_update_subset_insert[of m i "(m ! i)[j := ?p]"] by auto
      then show "length row = 3 \<and> (\<forall>x\<in>set row. \<exists>r>0. x = Fin r)"
        using upd[OF rows[OF ij(1)] pp, of j] upd[OF rows[OF ij(2)] qq, of i] m(2)
        by auto
    qed
    ultimately show ?thesis by blast
  qed
qed

lemma updatePairwise_all_positive:
  assumes "length m = 3" "\<forall>row\<in>set m. length row = 3 \<and> (\<forall>x\<in>set row. \<exists>r>0. x = Fin r)"
    and "\<forall>(i, j, pf)\<in>set es. i < 3 \<and> j < 3 \<and>
           (pf = NaN \<or> pf = Fin 0 \<or> (\<exists>r. pf = Fin r \<and> 1 / 2 ^ 1022 \<le> r \<and> r < 2 ^ 1024))"
  shows "\<exists>m'. updatePairwise_all es m = Inr m' \<and> length m' = 3 \<and>
           (\<forall>row\<in>set m'. length row = 3 \<and> (\<forall>x\<in>set row. \<exists>r>0. x = Fin r))"
  using assms
proof (induction es arbitrary: m)
  case Nil
  then show ?case by simp
next
  case (Cons e es)
  obtain i j pf where e: "e = (i, j, pf)" by (cases e) auto
  with Cons.prems(3) have ij: "i < 3" "j < 3"
    and pf: "pf = NaN \<or> pf = Fin 0 \<or> (\<exists>r. pf = Fin r \<and> 1 / 2 ^ 1022 \<le> r \<and> r < 2 ^ 1024)"
    by auto
  obtain m1 where m1: "updatePairwise i j pf m = Inr m1" "length m1 = 3"
    "\<forall>row\<in>set m1. length row = 3 \<and> (\<forall>x\<in>set row. \<exists>r>0. x = Fin r)"
    using updatePairwise_positive[OF Cons.prems(1,2) ij pf] by blast
  have "\<forall>(i, j, pf)\<in>set es. i < 3 \<and> j < 3 \<and>
           (pf = NaN \<or> pf = Fin 0 \<or> (\<exists>r. pf = Fin r \<and> 1 / 2 ^ 1022 \<le> r \<and> r < 2 ^ 1024))"
    using Cons.prems(3) by simp
  from Cons.IH[OF m1(2,3) this] show ?case using e m1(1) by simp
qed

lemma js_lit_positive:
  assumes "1 / 8 \<le> x" "x \<le> 1"
  shows "\<exists>r>0. js_lit x = Fin r"
proof -
  have "fl (1 / 8) = 1 / 8" using fl_div_pow2[of 1 3] by simp
  then have "to_double x = Fin (fl x)" "1 / 8 \<le> fl x"
    using to_double_between[of "1 / 8" x 1] assms by simp_all
  moreover have "(0 :: real) < 1 / 8" by simp
  ultimately have "js_lit x = Fin (fl x)" "0 < fl x" by (simp_all add: js_lit_def)
  then show ?thesis by blast
qed

lemma DEFAULT_PAIRWISE_positive:
  "length DEFAULT_PAIRWISE = 3"
  "\<forall>row\<in>set DEFAULT_PAIRWISE. length row = 3 \<and> (\<forall>x\<in>set row. \<exists>r>0. x = Fin r)"
proof -
  show "length DEFAULT_PAIRWISE = 3" by (simp add: DEFAULT_PAIRWISE_def)
  have a: "\<exists>r>0. js_lit 0.2 = Fin r" by (rule js_lit_positive) simp_all
  have b: "\<exists>r>0. js_lit 0.333 = Fin r" by (rule js_lit_positive) simp_all
  have c: "\<exists>r>0. Fin x = Fin r" if "0 < x" for x :: real using that by simp
  show "\<forall>row\<in>set DEFAULT_PAIRWISE. length row = 3 \<and> (\<forall>x\<in>set row. \<exists>r>0. x = Fin r)"
    using a b c[of 1] c[of 5] c[of 3] by (simp add: DEFAULT_PAIRWISE_def)
qed

lemma third_not_0333: "Fin 1 / Fin 3 \<noteq> js_lit 0.333"
proof -
  have a: "fl (341 / 1024) = 341 / 1024" using fl_div_pow2[of 341 10] by simp
  have b: "fl (1365 / 4096) = 1365 / 4096" using fl_div_pow2[of 1365 12] by simp
  have l: "js_lit 0.333 = Fin (fl 0.333)" by (rule js_lit_unit) simp_all
  have t: "to_double (1 / 3) = Fin (fl (1 / 3))" by (rule to_double_unit) simp_all
  have "fl 0.333 \<le> 341 / 1024" using a by (intro fl_le) simp_all
  moreover have "1365 / 4096 \<le> fl (1 / 3)" using b by (intro fl_ge) simp_all
  ultimately have "fl 0.333 < fl (1 / 3)" by simp
  then show ?thesis using l t by simp
qed

subsection \<open>Running totals\<close>

lemma sum_list_Ints: "(\<forall>k<length xs. xs ! k \<in> \<int>) \<Longrightarrow> sum_list xs \<in> (\<int> :: real set)"
proof (induction xs)
  case Nil
  show ?case by simp
next
  case (Cons x xs)
  have "x \<in> \<int>" using Cons.prems by (auto dest: spec[of _ 0])
  moreover have "\<forall>k<length xs. xs ! k \<in> \<int>" using Cons.prems by (auto dest: spec[of _ "Suc _"])
  ultimately show ?case using Cons.IH by simp
qed

lemma sum_list_le_sum:
  fixes xs :: "real list"
  assumes "\<forall>k<length xs. xs ! k \<le> g k"
  shows "sum_list xs \<le> (\<Sum>k<length xs. g k)"
proof -
  have "sum_list xs = (\<Sum>k<length xs. xs ! k)"
    by (simp add: sum_list_sum_nth atLeast0LessThan)
  also have "\<dots> \<le> (\<Sum>k<length xs. g k)" using assms by (intro sum_mono) simp
  finally show ?thesis .
qed

lemma abs_sum_list_le_sum:
  fixes xs :: "real list"
  assumes "\<forall>k<length xs. \<bar>xs ! k\<bar> \<le> g k"
  shows "\<bar>sum_list xs\<bar> \<le> (\<Sum>k<length xs. g k)"
proof -
  have "sum_list xs = (\<Sum>k<length xs. xs ! k)"
    by (simp add: sum_list_sum_nth atLeast0LessThan)
  then have "\<bar>sum_list xs\<bar> \<le> (\<Sum>k<length xs. \<bar>xs ! k\<bar>)" by (simp only: sum_abs)
  also have "\<dots> \<le> (\<Sum>k<length xs. g k)" using assms by (intro sum_mono) simp
  finally show ?thesis .
qed

lemma partial_sum_le:
  fixes g :: "nat \<Rightarrow> real"
  assumes "j \<le> n" "\<forall>k<n. 0 \<le> g k"
  shows "(\<Sum>k<j. g k) \<le> (\<Sum>k<n. g k)"
  using assms by (intro sum_mono2) auto

lemma between_abs: "l \<le> (w :: real) \<Longrightarrow> w \<le> u \<Longrightarrow> \<bar>w\<bar> \<le> max \<bar>l\<bar> \<bar>u\<bar>"
  by (simp add: abs_le_iff max_def) linarith

lemma take_Suc_update_Fin:
  assumes "j < length s" "take j s = map Fin xs"
  shows "take (Suc j) (s[j := Fin w]) = map Fin (xs @ [w])"
  using assms by (simp add: take_Suc_conv_app_nth)

subsection \<open>A run on finite coefficients and integer bounds\<close>

lemma aggressive_fraction_half:
  assumes "1 / 2 \<le> r" "r \<le> 1"
  shows "1 / 2 \<le> fl (r powr fl 0.8)"
proof -
  have "r powr 1 \<le> r powr fl 0.8"
    using assms fl_08_unit by (intro powr_mono') simp_all
  then have "1 / 2 \<le> r powr fl 0.8" using assms by simp
  then show ?thesis using fl_ge[of "1 / 2" "r powr fl 0.8"] by simp
qed

lemma conservative_fraction_half: "fl 0.15 \<le> 1 / 2"
  using fl_le[of "0.15" "1 / 2"] by simp

lemma lp_run_integer:
  assumes len: "length lower = length coeffs" "length upper = length coeffs"
    and bnd: "\<forall>i<length coeffs. lower ! i \<in> \<int> \<and> upper ! i \<in> \<int> \<and> lower ! i \<le> upper ! i"
    and mag: "(\<Sum>i<length coeffs. max \<bar>lower ! i\<bar> \<bar>upper ! i\<bar>) \<le> 2 ^ 52"
    and M: "1 \<le> M" "\<forall>c\<in>set coeffs. \<bar>c\<bar> \<le> M"
  shows "\<exists>xs. lp_loop options (map Fin coeffs) (map Fin lower) (map Fin upper) (Fin M) 0 (Fin 0)
                 (replicate (length coeffs) (Fin 0)) = map Fin xs \<and>
           length xs = length coeffs \<and>
           (\<forall>k<length coeffs.
              xs ! k \<in> \<int> \<and> lower ! k \<le> xs ! k \<and> xs ! k \<le> upper ! k \<and>
              (k < length cumCapacity \<longrightarrow>
                 sum_list (take (Suc k) xs) \<le> max (cumCapacity ! k) (sum_list (take k xs) + lower ! k)) \<and>
              (\<exists>f. 0 \<le> f \<and> f \<le> 1 \<and>
                 (maximize options \<and> strategy options = ''aggressive'' \<and> 0 < coeffs ! k \<longrightarrow> 1 / 2 \<le> f) \<and>
                 (maximize options \<and> strategy options = ''conservative'' \<longrightarrow> f = fl 0.15) \<and>
                 ((k < length cumCapacity \<longrightarrow> sum_list (take k xs) + upper ! k \<le> cumCapacity ! k) \<longrightarrow>
                    xs ! k = of_int (round (fl (lower ! k + fl ((upper ! k - lower ! k) * f)))))))"
proof -
  let ?n = "length coeffs"
  let ?g = "\<lambda>k. max \<bar>lower ! k\<bar> \<bar>upper ! k\<bar>"
  let ?Q = "\<lambda>xs k. xs ! k \<in> \<int> \<and> lower ! k \<le> xs ! k \<and> xs ! k \<le> upper ! k \<and>
              (k < length cumCapacity \<longrightarrow>
                 sum_list (take (Suc k) xs) \<le> max (cumCapacity ! k) (sum_list (take k xs) + lower ! k)) \<and>
              (\<exists>f. 0 \<le> f \<and> f \<le> 1 \<and>
                 (maximize options \<and> strategy options = ''aggressive'' \<and> 0 < coeffs ! k \<longrightarrow> 1 / 2 \<le> f) \<and>
                 (maximize options \<and> strategy options = ''conservative'' \<longrightarrow> f = fl 0.15) \<and>
                 ((k < length cumCapacity \<longrightarrow> sum_list (take k xs) + upper ! k \<le> cumCapacity ! k) \<longrightarrow>
                    xs ! k = of_int (round (fl (lower ! k + fl ((upper ! k - lower ! k) * f))))))"
  let ?I = "\<lambda>j c s. \<exists>xs. length xs = j \<and> take j s = map Fin xs \<and> c = Fin (sum_list xs) \<and>
              (\<forall>k<j. ?Q xs k)"
  have g0: "\<forall>k<?n. 0 \<le> ?g k" by (simp add: le_max_iff_disj)
  have "\<exists>cum'. ?I (length (map Fin coeffs)) cum'
          (lp_loop options (map Fin coeffs) (map Fin lower) (map Fin upper) (Fin M) 0 (Fin 0)
             (replicate ?n (Fin 0)))"
  proof (rule lp_loop_invariant[where I = ?I])
    show "?I 0 (Fin 0) (replicate ?n (Fin 0))" by simp
    show "length (replicate ?n (Fin 0 :: jsnum)) = length (map Fin coeffs)" by simp
    show "0 \<le> length (map Fin coeffs)" by simp
  next
    fix j c s
    assume j': "j < length (map Fin coeffs)" and ls': "length s = length (map Fin coeffs)"
      and inv: "?I j c s"
    from j' have j: "j < ?n" by simp
    from ls' have ls: "length s = ?n" by simp
    from inv obtain xs where xs: "length xs = j" "take j s = map Fin xs" "c = Fin (sum_list xs)"
      "\<forall>k<j. ?Q xs k" by blast
    define S where "S = sum_list xs"
    have lbub: "lower ! j \<in> \<int>" "upper ! j \<in> \<int>" "lower ! j \<le> upper ! j"
      using bnd j by simp_all
    have cj: "\<bar>coeffs ! j\<bar> \<le> M" using M(2) j by simp
    have SI: "S \<in> \<int>" unfolding S_def using xs(4) by (intro sum_list_Ints) (simp add: xs(1))
    have "\<forall>k<length xs. \<bar>xs ! k\<bar> \<le> ?g k"
      using xs(4) xs(1) between_abs by blast
    then have "\<bar>S\<bar> \<le> (\<Sum>k<j. ?g k)"
      unfolding S_def using abs_sum_list_le_sum[of xs ?g] xs(1) by simp
    then have "\<bar>S\<bar> + ?g j \<le> (\<Sum>k<Suc j. ?g k)" by simp
    also have "\<dots> \<le> (\<Sum>k<?n. ?g k)" using j g0 by (intro partial_sum_le) simp_all
    finally have Sb: "\<bar>S\<bar> + ?g j \<le> 2 ^ 52" using mag by simp
    let ?cap = "js_nth (map Fin cumCapacity) j"
    have cap: "?cap = NaN \<or> (\<exists>cp. ?cap = Fin cp \<and> cp \<in> \<int> \<and> \<bar>cp\<bar> \<le> 2 ^ 25)"
      using cap_cases[of j] by blast
    let ?v = "lp_period options (Fin M) (js_nth (map Fin coeffs) j) (js_nth (map Fin lower) j)
               (js_nth (map Fin upper) j) ?cap c"
    have args: "js_nth (map Fin coeffs) j = Fin (coeffs ! j)"
      "js_nth (map Fin lower) j = Fin (lower ! j)" "js_nth (map Fin upper) j = Fin (upper ! j)"
      using j len by (simp_all add: js_nth_map_Fin)
    obtain w r f where w: "lp_period options (Fin M) (Fin (coeffs ! j)) (Fin (lower ! j))
          (Fin (upper ! j)) ?cap (Fin S) = Fin w"
      "w \<in> \<int>" "lower ! j \<le> w" "w \<le> upper ! j"
      "\<forall>cp. ?cap = Fin cp \<longrightarrow> S + w \<le> max cp (S + lower ! j)"
      and r: "0 \<le> r" "r \<le> 1" "0 < coeffs ! j \<longrightarrow> 1 / 2 \<le> r"
      and f: "0 \<le> f" "f \<le> 1"
      "maximize options \<and> strategy options = ''aggressive'' \<longrightarrow> f = fl (r powr fl 0.8)"
      "maximize options \<and> strategy options = ''conservative'' \<longrightarrow> f = fl 0.15"
      and nb: "(\<forall>cp. ?cap = Fin cp \<longrightarrow>
             S + fl (lower ! j + fl ((upper ! j - lower ! j) * f)) \<le> cp) \<longrightarrow>
          w = of_int (round (fl (lower ! j + fl ((upper ! j - lower ! j) * f))))"
      using lp_period_integer[OF cj M(1) lbub SI Sb cap, of options] by blast
    have lb52: "\<bar>lower ! j\<bar> \<le> 2 ^ 52" "\<bar>upper ! j\<bar> \<le> 2 ^ 52"
      using Sb by (simp_all add: max_def split: if_splits)
    have tu: "fl (lower ! j + fl ((upper ! j - lower ! j) * f)) \<le> upper ! j"
      using target_between(3)[OF lbub(1) lb52(1) lbub(2) lb52(2) lbub(3) f(1,2)] .
    have v: "?v = Fin w" using w(1) args xs(3) by (simp add: S_def)
    have capj: "?cap = Fin (cumCapacity ! j)" if "j < length cumCapacity"
      using that by (simp add: js_nth_def)
    have ceil: "j < length cumCapacity \<longrightarrow> S + w \<le> max (cumCapacity ! j) (S + lower ! j)"
      using w(5) capj by blast
    have fa: "maximize options \<and> strategy options = ''aggressive'' \<and> 0 < coeffs ! j \<longrightarrow> 1 / 2 \<le> f"
      using f(3) r(2,3) aggressive_fraction_half by blast
    have nb': "(j < length cumCapacity \<longrightarrow> S + upper ! j \<le> cumCapacity ! j) \<longrightarrow>
          w = of_int (round (fl (lower ! j + fl ((upper ! j - lower ! j) * f))))"
    proof
      assume a: "j < length cumCapacity \<longrightarrow> S + upper ! j \<le> cumCapacity ! j"
      have "\<forall>cp. ?cap = Fin cp \<longrightarrow>
              S + fl (lower ! j + fl ((upper ! j - lower ! j) * f)) \<le> cp"
      proof (intro allI impI)
        fix cp assume cp: "?cap = Fin cp"
        then have "j < length cumCapacity" by (auto simp: js_nth_def split: if_splits)
        with a capj cp have "S + upper ! j \<le> cp" by simp
        with tu show "S + fl (lower ! j + fl ((upper ! j - lower ! j) * f)) \<le> cp" by simp
      qed
      with nb show "w = of_int (round (fl (lower ! j + fl ((upper ! j - lower ! j) * f))))"
        by blast
    qed
    have Qj: "?Q (xs @ [w]) j"
    proof -
      have e: "(xs @ [w]) ! j = w" "take j (xs @ [w]) = xs" "take (Suc j) (xs @ [w]) = xs @ [w]"
        using xs(1) by (simp_all add: nth_append)
      have ex: "\<exists>f. 0 \<le> f \<and> f \<le> 1 \<and>
                 (maximize options \<and> strategy options = ''aggressive'' \<and> 0 < coeffs ! j \<longrightarrow> 1 / 2 \<le> f) \<and>
                 (maximize options \<and> strategy options = ''conservative'' \<longrightarrow> f = fl 0.15) \<and>
                 ((j < length cumCapacity \<longrightarrow> S + upper ! j \<le> cumCapacity ! j) \<longrightarrow>
                    w = of_int (round (fl (lower ! j + fl ((upper ! j - lower ! j) * f)))))"
        by (rule exI[of _ f]) (intro conjI f(1,2,4) fa nb')
      show ?thesis
        unfolding e using w(2,3,4) ceil ex by (simp add: S_def)
    qed
    have "length (xs @ [w]) = Suc j" using xs(1) by simp
    moreover have "take (Suc j) (s[j := ?v]) = map Fin (xs @ [w])"
      using take_Suc_update_Fin[of j s xs w] j ls xs(2) v by simp
    moreover have "c + ?v = Fin (sum_list (xs @ [w]))"
    proof -
      have "S + w \<in> \<int>" using SI w(2) by simp
      moreover have "\<bar>w\<bar> \<le> ?g j" using w(3,4) by (rule between_abs)
      then have "\<bar>S + w\<bar> \<le> 2 ^ 52" using Sb by linarith
      then have "\<bar>S + w\<bar> \<le> 2 ^ 53" by (rule order_trans) simp
      ultimately have "to_double (S + w) = Fin (S + w)" by (rule to_double_Ints)
      then show ?thesis using xs(3) v by (simp add: S_def)
    qed
    moreover have "\<forall>k<Suc j. ?Q (xs @ [w]) k"
    proof (intro allI impI)
      fix k assume "k < Suc j"
      then consider "k < j" | "k = j" by linarith
      then show "?Q (xs @ [w]) k"
      proof cases
        case 1
        then have e: "(xs @ [w]) ! k = xs ! k" "take k (xs @ [w]) = take k xs"
          "take (Suc k) (xs @ [w]) = take (Suc k) xs"
          using xs(1) by (simp_all add: nth_append)
        show ?thesis unfolding e using xs(4) 1 by blast
      next
        case 2
        then show ?thesis using Qj by simp
      qed
    qed
    ultimately show "?I (Suc j) (c + ?v) (s[j := ?v])" by blast
  qed
  then obtain xs where xs: "length xs = ?n"
    "take ?n (lp_loop options (map Fin coeffs) (map Fin lower) (map Fin upper) (Fin M) 0 (Fin 0)
             (replicate ?n (Fin 0))) = map Fin xs"
    "\<forall>k<?n. ?Q xs k" by auto
  have "length (lp_loop options (map Fin coeffs) (map Fin lower) (map Fin upper) (Fin M) 0 (Fin 0)
             (replicate ?n (Fin 0))) = ?n"
    using lp_loop_length[of "replicate ?n (Fin 0)" "map Fin coeffs" 0] by simp
  with xs(2) have "lp_loop options (map Fin coeffs) (map Fin lower) (map Fin upper) (Fin M) 0 (Fin 0)
             (replicate ?n (Fin 0)) = map Fin xs" by simp
  with xs(1,3) show ?thesis by blast
qed

subsection \<open>Monotonicity of the objective\<close>

lemma js_ge_PInf: "x \<noteq> NaN \<Longrightarrow> js_ge PInf x"
  by (cases x) simp_all

lemma to_double_mono: "x \<le> y \<Longrightarrow> js_ge (to_double y) (to_double x)"
  using fl_mono[of x y] by (auto simp: to_double_def Let_def)

lemma to_double_nonneg: "0 \<le> x \<Longrightarrow> js_ge (to_double x) (Fin 0)"
  using to_double_mono[of 0 x] by simp

lemma js_ge_nonneg_cases: "js_ge x (Fin 0) \<Longrightarrow> x = PInf \<or> (\<exists>r\<ge>0. x = Fin r)"
  by (cases x) simp_all

lemma js_ge_plus_mono:
  assumes "js_ge a b" "js_ge p q" "js_ge b (Fin 0)" "js_ge q (Fin 0)"
  shows "js_ge (a + p) (b + q) \<and> js_ge (b + q) (Fin 0)"
proof -
  from assms(3) consider "b = PInf" | y where "0 \<le> y" "b = Fin y"
    using js_ge_nonneg_cases by blast
  then show ?thesis
  proof cases
    case 1
    then have a: "a = PInf" using assms(1) by (cases a) simp_all
    from assms(4) have "q = PInf \<or> (\<exists>r. q = Fin r)" using js_ge_nonneg_cases by blast
    moreover have "p = PInf \<or> (\<exists>r. p = Fin r)" using assms(2,4) by (cases p; cases q) simp_all
    ultimately show ?thesis using 1 a by auto
  next
    case 2
    from assms(4) consider "q = PInf" | z where "0 \<le> z" "q = Fin z"
      using js_ge_nonneg_cases by blast
    then show ?thesis
    proof cases
      case 1
      then have p: "p = PInf" using assms(2) by (cases p) simp_all
      have "a = PInf \<or> (\<exists>r. a = Fin r)" using assms(1) 2 by (cases a) simp_all
      then show ?thesis using 1 2 p by auto
    next
      case q: 2
      have bq: "b + q = to_double (y + z)" using 2 q by simp
      have nn: "js_ge (b + q) (Fin 0)" unfolding bq using 2 q by (intro to_double_nonneg) simp
      have "js_ge (a + p) (to_double (y + z))"
      proof (cases "a = PInf \<or> p = PInf")
        case True
        have "a = PInf \<or> (\<exists>r. a = Fin r)" using assms(1) 2 by (cases a) simp_all
        moreover have "p = PInf \<or> (\<exists>r. p = Fin r)" using assms(2) q by (cases p) simp_all
        ultimately have "a + p = PInf" using True by auto
        then show ?thesis by (simp add: js_ge_PInf)
      next
        case False
        then obtain x w where xw: "a = Fin x" "p = Fin w" "y \<le> x" "z \<le> w"
          using assms(1,2) 2 q by (cases a; cases p) simp_all
        then show ?thesis using to_double_mono[of "y + z" "x + w"] by simp
      qed
      then show ?thesis using nn bq by simp
    qed
  qed
qed

lemma js_dot_fold_mono:
  assumes "k + length xs \<le> length cs" "length ys = length xs"
    and "\<forall>j<length xs. 0 \<le> ys ! j \<and> ys ! j \<le> xs ! j"
    and "\<forall>c\<in>set cs. 0 < c"
    and "js_ge a b" "js_ge b (Fin 0)"
  shows "js_ge (foldl (\<lambda>s (i, xi). s + js_nth (map Fin cs) i * xi) a (enumerate k (map Fin xs)))
               (foldl (\<lambda>s (i, xi). s + js_nth (map Fin cs) i * xi) b (enumerate k (map Fin ys)))"
  using assms
proof (induction xs arbitrary: ys k a b)
  case Nil
  then show ?case by simp
next
  case (Cons x xs)
  from Cons.prems(2) obtain y ys' where ys: "ys = y # ys'" "length ys' = length xs"
    by (cases ys) auto
  have k: "k < length cs" and le: "Suc k + length xs \<le> length cs" using Cons.prems(1) by simp_all
  have c: "0 < cs ! k" using Cons.prems(4) k by simp
  have yx: "0 \<le> y" "y \<le> x" using Cons.prems(3) ys by (auto dest: spec[of _ 0])
  have rest: "\<forall>j<length xs. 0 \<le> ys' ! j \<and> ys' ! j \<le> xs ! j"
    using Cons.prems(3) ys by (auto dest: spec[of _ "Suc _"])
  have "cs ! k * y \<le> cs ! k * x" "0 \<le> cs ! k * y" using c yx by simp_all
  then have "js_ge (to_double (cs ! k * x)) (to_double (cs ! k * y))"
    "js_ge (to_double (cs ! k * y)) (Fin 0)"
    by (simp_all add: to_double_mono to_double_nonneg)
  then have step: "js_ge (a + to_double (cs ! k * x)) (b + to_double (cs ! k * y))"
    "js_ge (b + to_double (cs ! k * y)) (Fin 0)"
    using js_ge_plus_mono[OF Cons.prems(5) _ Cons.prems(6)] by blast+
  show ?case
    using Cons.IH[OF le ys(2) rest Cons.prems(4) step] k ys
    by (simp add: js_nth_map_Fin)
qed

lemma js_dot_mono:
  assumes "length xs \<le> length cs" "length ys = length xs"
    and "\<forall>j<length xs. 0 \<le> ys ! j \<and> ys ! j \<le> xs ! j"
    and "\<forall>c\<in>set cs. 0 < c"
  shows "js_ge (js_dot (map Fin cs) (map Fin xs)) (js_dot (map Fin cs) (map Fin ys))"
  unfolding js_dot_def using assms by (intro js_dot_fold_mono) simp_all

subsection \<open>The conservative fraction of a span\<close>

lemma fl_015_bounds: "5404319552844595 / 2 ^ 55 \<le> fl 0.15" "fl 0.15 \<le> 5404319552844596 / 2 ^ 55"
proof -
  have a: "fl (5404319552844595 / 2 ^ 55) = 5404319552844595 / 2 ^ 55"
    using fl_div_pow2[of 5404319552844595 55] by simp
  have b: "fl (5404319552844596 / 2 ^ 55) = 5404319552844596 / 2 ^ 55"
    using fl_div_pow2[of 5404319552844596 55] by simp
  show "5404319552844595 / 2 ^ 55 \<le> fl 0.15" using a by (intro fl_ge) simp_all
  show "fl 0.15 \<le> 5404319552844596 / 2 ^ 55" using b by (intro fl_le) simp_all
qed

lemma fl_near_int:
  assumes "\<bar>k\<bar> \<le> 2 ^ 50" "of_int k - 1 / 4 \<le> x" "x \<le> of_int k + 1 / 4"
  shows "of_int k - 1 / 4 \<le> fl x" "fl x \<le> of_int k + 1 / 4"
proof -
  have b: "\<bar>4 * k - 1\<bar> < 2 ^ 53" "\<bar>4 * k + 1\<bar> < 2 ^ 53" using assms(1) by simp_all
  have lo: "fl (of_int k - 1 / 4) = of_int k - 1 / 4"
    using fl_div_pow2[OF b(1), of 2] by (simp add: field_simps)
  have hi: "fl (of_int k + 1 / 4) = of_int k + 1 / 4"
    using fl_div_pow2[OF b(2), of 2] by (simp add: field_simps)
  show "of_int k - 1 / 4 \<le> fl x" using assms(2) lo by (rule fl_ge)
  show "fl x \<le> of_int k + 1 / 4" using assms(3) hi by (rule fl_le)
qed

lemma round_near_int:
  assumes "of_int k - 1 / 4 \<le> x" "x \<le> of_int k + 1 / 4"
  shows "round x = k"
proof -
  have "of_int k \<le> x + 1 / 2" "x + 1 / 2 < of_int k + 1" using assms by simp_all
  then have "\<lfloor>x + 1 / 2\<rfloor> = k" by (simp add: floor_eq_iff)
  then show ?thesis by (simp add: round_def)
qed

subsection \<open>Periods of concrete runs\<close>

lemma lp_period_zero:
  assumes "\<bar>c\<bar> \<le> M" "1 \<le> M" "s \<in> \<int>" "\<bar>s\<bar> \<le> 2 ^ 52" "cp \<in> \<int>" "\<bar>cp\<bar> \<le> 2 ^ 25"
  shows "lp_period opts (Fin M) (Fin c) (Fin 0) (Fin 0) (Fin cp) (Fin s) = Fin 0"
proof -
  have cap: "Fin cp = NaN \<or> (\<exists>x. Fin cp = Fin x \<and> x \<in> \<int> \<and> \<bar>x\<bar> \<le> 2 ^ 25)"
    using assms(5,6) by simp
  have sb: "\<bar>s\<bar> + max \<bar>0 :: real\<bar> \<bar>0\<bar> \<le> 2 ^ 52" using assms(4) by simp
  obtain w where "lp_period opts (Fin M) (Fin c) (Fin 0) (Fin 0) (Fin cp) (Fin s) = Fin w"
    "0 \<le> w" "w \<le> 0"
    using lp_period_integer[OF assms(1,2) _ _ _ assms(3) sb cap, of opts] by auto
  then show ?thesis by simp
qed

lemma conservative_target:
  assumes d: "0 \<le> d" "of_int e - 1 / 4 \<le> d * (5404319552844595 / 2 ^ 55)"
      "d * (5404319552844596 / 2 ^ 55) \<le> of_int e + 1 / 4"
    and b: "\<bar>e\<bar> \<le> 2 ^ 50" "\<bar>l + e\<bar> \<le> 2 ^ 50"
  shows "of_int (l + e) - 1 / 4 \<le> fl (of_int l + fl (d * fl 0.15))"
    "fl (of_int l + fl (d * fl 0.15)) \<le> of_int (l + e) + 1 / 4"
    "round (fl (of_int l + fl (d * fl 0.15))) = l + e"
proof -
  have "d * (5404319552844595 / 2 ^ 55) \<le> d * fl 0.15"
    by (rule mult_left_mono[OF fl_015_bounds(1) d(1)])
  moreover have "d * fl 0.15 \<le> d * (5404319552844596 / 2 ^ 55)"
    by (rule mult_left_mono[OF fl_015_bounds(2) d(1)])
  ultimately have p: "of_int e - 1 / 4 \<le> d * fl 0.15" "d * fl 0.15 \<le> of_int e + 1 / 4"
    using d(2,3) by linarith+
  have q: "of_int e - 1 / 4 \<le> fl (d * fl 0.15)" "fl (d * fl 0.15) \<le> of_int e + 1 / 4"
    using fl_near_int[OF b(1) p] by simp_all
  have r: "of_int (l + e) - 1 / 4 \<le> of_int l + fl (d * fl 0.15)"
    "of_int l + fl (d * fl 0.15) \<le> of_int (l + e) + 1 / 4"
    using q by simp_all
  show t: "of_int (l + e) - 1 / 4 \<le> fl (of_int l + fl (d * fl 0.15))"
    "fl (of_int l + fl (d * fl 0.15)) \<le> of_int (l + e) + 1 / 4"
    using fl_near_int[OF b(2) r] by simp_all
  show "round (fl (of_int l + fl (d * fl 0.15))) = l + e"
    using t by (rule round_near_int)
qed

lemma conservative_period:
  assumes c: "\<bar>c\<bar> \<le> M" "1 \<le> M"
    and lu: "l \<le> u"
    and s: "s \<in> \<int>" "\<bar>s\<bar> + max \<bar>of_int l\<bar> \<bar>of_int u\<bar> \<le> 2 ^ 52"
    and cp: "cp \<in> \<int>" "\<bar>cp\<bar> \<le> 2 ^ 25"
    and d: "of_int e - 1 / 4 \<le> (of_int (u - l) :: real) * (5404319552844595 / 2 ^ 55)"
      "(of_int (u - l) :: real) * (5404319552844596 / 2 ^ 55) \<le> of_int e + 1 / 4"
    and b: "\<bar>e\<bar> \<le> 2 ^ 50" "\<bar>l + e\<bar> \<le> 2 ^ 50"
    and room: "s + of_int (l + e) + 1 / 4 \<le> cp"
  shows "lp_period \<lparr>maximize = True, strategy = ''conservative''\<rparr> (Fin M) (Fin c)
           (Fin (of_int l)) (Fin (of_int u)) (Fin cp) (Fin s) = Fin (of_int (l + e))"
proof -
  let ?o = "\<lparr>maximize = True, strategy = ''conservative''\<rparr>"
  have cap: "Fin cp = NaN \<or> (\<exists>x. Fin cp = Fin x \<and> x \<in> \<int> \<and> \<bar>x\<bar> \<le> 2 ^ 25)"
    using cp by simp
  have lu': "(of_int l :: real) \<le> of_int u" using lu by simp
  obtain w f where w: "lp_period ?o (Fin M) (Fin c) (Fin (of_int l)) (Fin (of_int u)) (Fin cp) (Fin s)
        = Fin w"
    and f: "maximize ?o \<and> strategy ?o = ''conservative'' \<longrightarrow> f = fl 0.15"
    and nb: "(\<forall>x. Fin cp = Fin x \<longrightarrow>
               s + fl (of_int l + fl ((of_int u - of_int l) * f)) \<le> x) \<longrightarrow>
             w = of_int (round (fl (of_int l + fl ((of_int u - of_int l) * f))))"
    using lp_period_integer[OF c _ _ lu' s cap, of ?o] by auto
  have f15: "f = fl 0.15" using f by simp
  have d0: "(0 :: real) \<le> of_int (u - l)" using lu by simp
  note t = conservative_target[OF d0 d b]
  have eq: "(of_int u - of_int l :: real) = of_int (u - l)" by simp
  have "s + fl (of_int l + fl ((of_int u - of_int l) * f)) \<le> cp"
    unfolding f15 eq using t(2) room by linarith
  then have "w = of_int (round (fl (of_int l + fl ((of_int u - of_int l) * f))))"
    using nb by simp
  then have "w = of_int (l + e)" unfolding f15 eq using t(3) by simp
  with w show ?thesis by simp
qed

lemma aggressive_period_bound:
  assumes c: "0 < c" "c \<le> M" "1 \<le> M"
    and l: "l \<in> \<int>" and u: "u \<in> \<int>" and lu: "l \<le> u"
    and s: "s \<in> \<int>" "\<bar>s\<bar> + max \<bar>l\<bar> \<bar>u\<bar> \<le> 2 ^ 52"
    and cp: "cp \<in> \<int>" "\<bar>cp\<bar> \<le> 2 ^ 25"
    and h: "h \<in> \<int>" "h \<le> l + (u - l) / 2" "\<bar>h - l\<bar> \<le> 2 ^ 53" "\<bar>h\<bar> \<le> 2 ^ 53"
    and over: "cp + 1 / 2 \<le> s + h"
  shows "lp_period \<lparr>maximize = True, strategy = ''aggressive''\<rparr> (Fin M) (Fin c)
           (Fin l) (Fin u) (Fin cp) (Fin s) = Fin (min u (max l (cp - s)))"
proof -
  let ?o = "\<lparr>maximize = True, strategy = ''aggressive''\<rparr>"
  have cap: "Fin cp = NaN \<or> (\<exists>x. Fin cp = Fin x \<and> x \<in> \<int> \<and> \<bar>x\<bar> \<le> 2 ^ 25)"
    using cp by simp
  have ca: "\<bar>c\<bar> \<le> M" using c by simp
  obtain w r f where w: "lp_period ?o (Fin M) (Fin c) (Fin l) (Fin u) (Fin cp) (Fin s) = Fin w"
    and r: "r \<le> 1" "0 < c \<longrightarrow> 1 / 2 \<le> r"
    and f: "maximize ?o \<and> strategy ?o = ''aggressive'' \<longrightarrow> f = fl (r powr fl 0.8)"
    and bind: "\<forall>x. Fin cp = Fin x \<and> x + 1 / 2 \<le> s + fl (l + fl ((u - l) * f)) \<longrightarrow>
                 w = min u (max l (x - s))"
    using lp_period_integer[OF ca c(3) l u lu s cap, of ?o] by blast
  have fh: "1 / 2 \<le> f" using f r c(1) aggressive_fraction_half by simp
  have "(u - l) * (1 / 2) \<le> (u - l) * f" using lu fh by (intro mult_left_mono) simp_all
  then have "h - l \<le> (u - l) * f" using h(2) by linarith
  moreover have "fl (h - l) = h - l" using h(1,3) l by (intro fl_Ints) simp_all
  ultimately have "h - l \<le> fl ((u - l) * f)" by (rule fl_ge)
  then have "h \<le> l + fl ((u - l) * f)" by simp
  moreover have "fl h = h" using h(1,4) by (rule fl_Ints)
  ultimately have "h \<le> fl (l + fl ((u - l) * f))" by (rule fl_ge)
  then have "cp + 1 / 2 \<le> s + fl (l + fl ((u - l) * f))" using over by simp
  then have "w = min u (max l (cp - s))" using bind by simp
  with w show ?thesis by simp
qed

section \<open>The claims\<close>

subsection \<open>C1: bounds and cumulative ceiling of the allocation\<close>

text \<open>
  Claim C1, as amended. Let the three arrays have the same length, shorter than the
  engine's limit on the number of arguments of a call; let every coefficient be a finite
  number; let the bounds of every period be integers with \<open>lower_i \<le> upper_i\<close>; and let
  the sum over the periods of \<open>max(|lower_i|, |upper_i|)\<close> be at most \<open>2^52\<close>. Then the
  heuristic, for any options, returns a result; its allocations are integers with
  \<open>lower_i \<le> allocation_i \<le> upper_i\<close> in every period; and in each of the first twelve
  periods the running total \<open>allocation_0 + ... + allocation_i\<close> is at most the larger of
  the ceiling of month \<open>i\<close> and the previous running total plus \<open>lower_i\<close>: the total
  passes the ceiling only where the lower bound forces it (line 115 clamps to
  \<open>max(lb, cumCapacity[i] - cumulative)\<close>, and line 119 clamps to the bounds afterwards).
\<close>

theorem solveLPHeuristic_bounds_and_ceiling:
  assumes len: "length lower = length coeffs" "length upper = length coeffs"
    and lim: "length coeffs < argLimit"
    and bnd: "\<forall>i<length coeffs. lower ! i \<in> \<int> \<and> upper ! i \<in> \<int> \<and> lower ! i \<le> upper ! i"
    and mag: "(\<Sum>i<length coeffs. max \<bar>lower ! i\<bar> \<bar>upper ! i\<bar>) \<le> 2 ^ 52"
  shows "\<exists>r xs. solveLPHeuristic argLimit (map Fin coeffs) (map Fin lower) (map Fin upper) options
                  = Inr r \<and>
           solution r = map Fin xs \<and> length xs = length coeffs \<and>
           (\<forall>i<length coeffs. xs ! i \<in> \<int> \<and> lower ! i \<le> xs ! i \<and> xs ! i \<le> upper ! i) \<and>
           (\<forall>i<length coeffs. i < length cumCapacity \<longrightarrow>
              sum_list (take (Suc i) xs) \<le> max (cumCapacity ! i) (sum_list (take i xs) + lower ! i))"
proof -
  obtain M where M: "lp_maxAbs argLimit (map Fin coeffs) = Inr (Fin M)" "1 \<le> M"
    "\<forall>c\<in>set coeffs. \<bar>c\<bar> \<le> M"
    using lp_maxAbs_Fin[OF lim] by blast
  obtain xs where xs: "lp_loop options (map Fin coeffs) (map Fin lower) (map Fin upper) (Fin M) 0
        (Fin 0) (replicate (length coeffs) (Fin 0)) = map Fin xs"
    "length xs = length coeffs"
    "\<forall>k<length coeffs. xs ! k \<in> \<int> \<and> lower ! k \<le> xs ! k \<and> xs ! k \<le> upper ! k \<and>
       (k < length cumCapacity \<longrightarrow>
          sum_list (take (Suc k) xs) \<le> max (cumCapacity ! k) (sum_list (take k xs) + lower ! k))"
    using lp_run_integer[OF len bnd mag M(2,3), of options] by blast
  have "solveLPHeuristic argLimit (map Fin coeffs) (map Fin lower) (map Fin upper) options =
        Inr \<lparr>solution = map Fin xs, objective = js_dot (map Fin coeffs) (map Fin xs)\<rparr>"
    using M(1) xs(1) by (simp add: solveLPHeuristic_def Let_def)
  then show ?thesis using xs(2,3) by auto
qed

text \<open>
  Claim C1, witness: two periods with the upper bounds 2700000 and 3000000 and equal
  coefficients, strategy aggressive. The hypotheses hold; the allocations are 2700000 and
  2500000: the first meets the ceiling of the first month, and the second is cut down so
  that the running total 5200000 meets the ceiling of the second month.
\<close>

theorem solveLPHeuristic_bounds_and_ceiling_witness:
  "length [0 :: real, 0] = length [2 :: real, 2] \<and>
   length [2700000 :: real, 3000000] = length [2 :: real, 2] \<and>
   length [2 :: real, 2] < (65536 :: nat) \<and>
   (0 :: real) \<in> \<int> \<and> (2700000 :: real) \<in> \<int> \<and> (3000000 :: real) \<in> \<int> \<and>
   (0 :: real) \<le> 2700000 \<and> (0 :: real) \<le> 3000000 \<and>
   max \<bar>0 :: real\<bar> \<bar>2700000\<bar> + max \<bar>0 :: real\<bar> \<bar>3000000\<bar> \<le> 2 ^ 52 \<and>
   solveLPHeuristic 65536 (map Fin [2, 2]) (map Fin [0, 0]) (map Fin [2700000, 3000000])
       \<lparr>maximize = True, strategy = ''aggressive''\<rparr> =
     Inr \<lparr>solution = map Fin [2700000, 2500000], objective = Fin 10400000\<rparr> \<and>
   (\<exists>xs. xs = [2700000 :: real, 2500000] \<and>
      0 \<le> xs ! 0 \<and> xs ! 0 \<le> 2700000 \<and> 0 \<le> xs ! 1 \<and> xs ! 1 \<le> 3000000 \<and>
      sum_list (take 1 xs) \<le> max (cumCapacity ! 0) (sum_list (take 0 xs) + 0) \<and>
      sum_list (take 2 xs) \<le> max (cumCapacity ! 1) (sum_list (take 1 xs) + 0))"
proof -
  let ?cs = "[2 :: real, 2]"
  let ?lo = "[0 :: real, 0]"
  let ?up = "[2700000 :: real, 3000000]"
  let ?o = "\<lparr>maximize = True, strategy = ''aggressive''\<rparr>"
  have h1: "length ?lo = length ?cs" "length ?up = length ?cs" "length ?cs < (65536 :: nat)"
    by simp_all
  have h2: "\<forall>i<length ?cs. ?lo ! i \<in> \<int> \<and> ?up ! i \<in> \<int> \<and> ?lo ! i \<le> ?up ! i"
    by (simp add: less_Suc_eq)
  have h3: "(\<Sum>i<length ?cs. max \<bar>?lo ! i\<bar> \<bar>?up ! i\<bar>) \<le> 2 ^ 52"
    by (simp add: eval_nat_numeral)
  have m: "lp_maxAbs 65536 (map Fin ?cs) = Inr (Fin 2)" by (simp add: lp_eval)
  have "lp_loop ?o (map Fin ?cs) (map Fin ?lo) (map Fin ?up) (Fin 2) 0 (Fin 0)
          (replicate (length (map Fin ?cs)) (Fin 0)) = map Fin [2700000, 2500000]"
    by (simp add: lp_eval)
  then have ev: "solveLPHeuristic 65536 (map Fin ?cs) (map Fin ?lo) (map Fin ?up) ?o =
      Inr \<lparr>solution = map Fin [2700000, 2500000], objective = Fin 10400000\<rparr>"
    using m by (simp add: solveLPHeuristic_def lp_eval)
  obtain r xs where r: "solveLPHeuristic 65536 (map Fin ?cs) (map Fin ?lo) (map Fin ?up) ?o = Inr r"
    "solution r = map Fin xs" "length xs = length ?cs"
    "\<forall>i<length ?cs. xs ! i \<in> \<int> \<and> ?lo ! i \<le> xs ! i \<and> xs ! i \<le> ?up ! i"
    "\<forall>i<length ?cs. i < length cumCapacity \<longrightarrow>
        sum_list (take (Suc i) xs) \<le> max (cumCapacity ! i) (sum_list (take i xs) + ?lo ! i)"
    using solveLPHeuristic_bounds_and_ceiling[OF h1 h2 h3, of ?o] by blast
  from r(1,2) ev have "map Fin xs = map Fin [2700000, 2500000]" by simp
  then have x: "xs = [2700000, 2500000]" by (simp add: map_eq_Cons_conv)
  have lc: "0 < length cumCapacity" "1 < length cumCapacity" by (simp_all add: cumCapacity_def)
  have b0: "0 \<le> xs ! 0 \<and> xs ! 0 \<le> 2700000" using r(4)[THEN spec, of 0] by simp
  have b1: "0 \<le> xs ! 1 \<and> xs ! 1 \<le> 3000000" using r(4)[THEN spec, of 1] by simp
  have c0: "sum_list (take 1 xs) \<le> max (cumCapacity ! 0) (sum_list (take 0 xs) + 0)"
    using r(5)[THEN spec, of 0] lc by simp
  have c1: "sum_list (take 2 xs) \<le> max (cumCapacity ! 1) (sum_list (take 1 xs) + 0)"
    using r(5)[THEN spec, of 1] lc by (simp add: eval_nat_numeral)
  have "\<exists>xs. xs = [2700000 :: real, 2500000] \<and>
      0 \<le> xs ! 0 \<and> xs ! 0 \<le> 2700000 \<and> 0 \<le> xs ! 1 \<and> xs ! 1 \<le> 3000000 \<and>
      sum_list (take 1 xs) \<le> max (cumCapacity ! 0) (sum_list (take 0 xs) + 0) \<and>
      sum_list (take 2 xs) \<le> max (cumCapacity ! 1) (sum_list (take 1 xs) + 0)"
    using x b0 b1 c0 c1 by blast
  moreover have "(0 :: real) \<in> \<int>" "(2700000 :: real) \<in> \<int>" "(3000000 :: real) \<in> \<int>"
    "(0 :: real) \<le> 2700000" "(0 :: real) \<le> 3000000"
    "max \<bar>0 :: real\<bar> \<bar>2700000\<bar> + max \<bar>0 :: real\<bar> \<bar>3000000\<bar> \<le> 2 ^ 52"
    by simp_all
  ultimately show ?thesis using h1 ev by (intro conjI)
qed

text \<open>
  Claim C1, counterexample to the claim as stated. With twelve periods and
  \<open>lower_0 = upper_0 = 2800000\<close> the first allocation is 2800000, above the ceiling 2700000 of
  the first month: the lower bound wins over the ceiling. With the bounds
  \<open>lower_0 = upper_0 = 0.5\<close> the first allocation is 1, above the upper bound: the value is
  rounded after it is clamped.
\<close>

theorem solveLPHeuristic_ceiling_counterexample:
  "solveLPHeuristic 65536
       (map Fin [1, 1, 1, 1, 1, 1, 1, 1, 1, 1, 1, 1])
       (map Fin [2800000, 0, 0, 0, 0, 0, 0, 0, 0, 0, 0, 0])
       (map Fin [2800000, 0, 0, 0, 0, 0, 0, 0, 0, 0, 0, 0])
       \<lparr>maximize = True, strategy = ''conservative''\<rparr>
     = Inr \<lparr>solution = map Fin [2800000, 0, 0, 0, 0, 0, 0, 0, 0, 0, 0, 0],
            objective = Fin 2800000\<rparr> \<and>
   cumCapacity ! 0 < sum_list (take 1 [2800000, 0, 0, 0, 0, 0, 0, 0, 0, 0, 0, 0]) \<and>
   solveLPHeuristic 65536
       (map Fin [1, 1, 1, 1, 1, 1, 1, 1, 1, 1, 1, 1])
       (map Fin [0.5, 0, 0, 0, 0, 0, 0, 0, 0, 0, 0, 0])
       (map Fin [0.5, 0, 0, 0, 0, 0, 0, 0, 0, 0, 0, 0])
       \<lparr>maximize = True, strategy = ''conservative''\<rparr>
     = Inr \<lparr>solution = map Fin [1, 0, 0, 0, 0, 0, 0, 0, 0, 0, 0, 0], objective = Fin 1\<rparr> \<and>
   (0.5 :: real) < 1"
proof -
  let ?cs = "map Fin [1, 1, 1, 1, 1, 1, 1, 1, 1, 1, 1, 1]"
  let ?lo = "map Fin [2800000, 0, 0, 0, 0, 0, 0, 0, 0, 0, 0, 0]"
  let ?lo' = "map Fin [0.5, 0, 0, 0, 0, 0, 0, 0, 0, 0, 0, 0]"
  let ?opts = "\<lparr>maximize = True, strategy = ''conservative''\<rparr>"
  have l15: "js_lit 0.15 = Fin (fl 0.15)" by (rule js_lit_unit) simp_all
  have m: "lp_maxAbs 65536 ?cs = Inr (Fin 1)" by (simp add: lp_eval)
  have "lp_loop ?opts ?cs ?lo ?lo (Fin 1) 0 (Fin 0) (replicate (length ?cs) (Fin 0))
        = map Fin [2800000, 0, 0, 0, 0, 0, 0, 0, 0, 0, 0, 0]"
    using l15 by (simp add: lp_eval)
  moreover have "js_dot ?cs (map Fin [2800000, 0, 0, 0, 0, 0, 0, 0, 0, 0, 0, 0]) = Fin 2800000"
    by (simp add: dot_eval)
  ultimately have a: "solveLPHeuristic 65536 ?cs ?lo ?lo ?opts
        = Inr \<lparr>solution = map Fin [2800000, 0, 0, 0, 0, 0, 0, 0, 0, 0, 0, 0],
               objective = Fin 2800000\<rparr>"
    by (rule solveLPHeuristic_eval[OF m])
  have b: "cumCapacity ! 0 < sum_list (take 1 [2800000, 0, 0, 0, 0, 0, 0, 0, 0, 0, 0, 0])"
    by (simp add: cumCapacity_def)
  have "lp_loop ?opts ?cs ?lo' ?lo' (Fin 1) 0 (Fin 0) (replicate (length ?cs) (Fin 0))
        = map Fin [1, 0, 0, 0, 0, 0, 0, 0, 0, 0, 0, 0]"
    using l15 by (simp add: lp_eval)
  moreover have "js_dot ?cs (map Fin [1, 0, 0, 0, 0, 0, 0, 0, 0, 0, 0, 0]) = Fin 1"
    by (simp add: dot_eval)
  ultimately have c: "solveLPHeuristic 65536 ?cs ?lo' ?lo' ?opts
        = Inr \<lparr>solution = map Fin [1, 0, 0, 0, 0, 0, 0, 0, 0, 0, 0, 0], objective = Fin 1\<rparr>"
    by (rule solveLPHeuristic_eval[OF m])
  have d: "(0.5 :: real) < 1" by simp
  from a b c d show ?thesis by (intro conjI)
qed

subsection \<open>C3: aggressive against conservative when maximizing\<close>

text \<open>
  Claim C3, as amended. Let the three arrays have the same length, at most twelve and
  shorter than the engine's limit on the number of arguments of a call; let the
  coefficients be finite and strictly positive; let the bounds of every period be
  integers with \<open>0 \<le> lower_i \<le> upper_i\<close>; and let the cumulative ceilings leave room for
  the upper bounds: for every period the sum of the upper bounds up to that period is at
  most the ceiling of the period. Then both runs return a result, and the objective of the
  run with \<open>maximize = true\<close> and strategy aggressive is greater than or equal to (\<open>>=\<close>) the
  objective of the run with strategy conservative.
\<close>

theorem aggressive_ge_conservative:
  assumes len: "length lower = length coeffs" "length upper = length coeffs"
    and lim: "length coeffs < argLimit"
    and n12: "length coeffs \<le> length cumCapacity"
    and pos: "\<forall>c\<in>set coeffs. 0 < c"
    and bnd: "\<forall>i<length coeffs. lower ! i \<in> \<int> \<and> upper ! i \<in> \<int> \<and>
                0 \<le> lower ! i \<and> lower ! i \<le> upper ! i"
    and room: "\<forall>i<length coeffs. (\<Sum>k\<le>i. upper ! k) \<le> cumCapacity ! i"
  shows "\<exists>ra rc.
           solveLPHeuristic argLimit (map Fin coeffs) (map Fin lower) (map Fin upper)
             \<lparr>maximize = True, strategy = ''aggressive''\<rparr> = Inr ra \<and>
           solveLPHeuristic argLimit (map Fin coeffs) (map Fin lower) (map Fin upper)
             \<lparr>maximize = True, strategy = ''conservative''\<rparr> = Inr rc \<and>
           js_ge (objective ra) (objective rc)"
proof -
  let ?n = "length coeffs"
  let ?A = "\<lparr>maximize = True, strategy = ''aggressive''\<rparr>"
  let ?C = "\<lparr>maximize = True, strategy = ''conservative''\<rparr>"
  obtain M where M: "lp_maxAbs argLimit (map Fin coeffs) = Inr (Fin M)" "1 \<le> M"
    "\<forall>c\<in>set coeffs. \<bar>c\<bar> \<le> M"
    using lp_maxAbs_Fin[OF lim] by blast
  have bnd': "\<forall>i<?n. lower ! i \<in> \<int> \<and> upper ! i \<in> \<int> \<and> lower ! i \<le> upper ! i"
    using bnd by simp
  have u0: "\<forall>k<?n. 0 \<le> upper ! k" using bnd by force
  have mx: "max \<bar>lower ! i\<bar> \<bar>upper ! i\<bar> = upper ! i" if "i < ?n" for i
  proof -
    have "0 \<le> lower ! i" "lower ! i \<le> upper ! i" using bnd that by simp_all
    then show ?thesis by (simp add: max_def)
  qed
  have mag: "(\<Sum>i<?n. max \<bar>lower ! i\<bar> \<bar>upper ! i\<bar>) \<le> 2 ^ 52"
  proof (cases "?n = 0")
    case True
    then show ?thesis by simp
  next
    case False
    then obtain m where m: "?n = Suc m" by (cases ?n) simp_all
    have "(\<Sum>i<?n. max \<bar>lower ! i\<bar> \<bar>upper ! i\<bar>) = (\<Sum>i<?n. upper ! i)"
      using mx by (intro sum.cong) simp_all
    also have "\<dots> = (\<Sum>k\<le>m. upper ! k)" using m by (simp add: lessThan_Suc_atMost)
    also have "\<dots> \<le> cumCapacity ! m" using room m by simp
    also have "\<dots> \<le> 2 ^ 25" using cumCapacity_bound[of m] n12 m by simp
    also have "\<dots> \<le> (2 :: real) ^ 52" by simp
    finally show ?thesis .
  qed
  note run = lp_run_integer[OF len bnd' mag M(2,3)]
  obtain xs where xs: "lp_loop ?A (map Fin coeffs) (map Fin lower) (map Fin upper) (Fin M) 0
        (Fin 0) (replicate ?n (Fin 0)) = map Fin xs" "length xs = ?n"
    and xq: "\<forall>k<?n. xs ! k \<le> upper ! k \<and>
       (\<exists>f. (maximize ?A \<and> strategy ?A = ''aggressive'' \<and> 0 < coeffs ! k \<longrightarrow> 1 / 2 \<le> f) \<and>
          ((k < length cumCapacity \<longrightarrow> sum_list (take k xs) + upper ! k \<le> cumCapacity ! k) \<longrightarrow>
             xs ! k = of_int (round (fl (lower ! k + fl ((upper ! k - lower ! k) * f))))))"
    using run[of ?A] by blast
  obtain ys where ys: "lp_loop ?C (map Fin coeffs) (map Fin lower) (map Fin upper) (Fin M) 0
        (Fin 0) (replicate ?n (Fin 0)) = map Fin ys" "length ys = ?n"
    and yq: "\<forall>k<?n. lower ! k \<le> ys ! k \<and> ys ! k \<le> upper ! k \<and>
       (\<exists>f. (maximize ?C \<and> strategy ?C = ''conservative'' \<longrightarrow> f = fl 0.15) \<and>
          ((k < length cumCapacity \<longrightarrow> sum_list (take k ys) + upper ! k \<le> cumCapacity ! k) \<longrightarrow>
             ys ! k = of_int (round (fl (lower ! k + fl ((upper ! k - lower ! k) * f))))))"
    using run[of ?C] by blast
  have fits: "sum_list (take k zs) + upper ! k \<le> cumCapacity ! k"
    if k: "k < ?n" and zl: "length zs = ?n" and zu: "\<forall>j<?n. zs ! j \<le> upper ! j" for k zs
  proof -
    have "sum_list (take k zs) \<le> (\<Sum>j<length (take k zs). upper ! j)"
      using k zl zu by (intro sum_list_le_sum) simp
    also have "\<dots> = (\<Sum>j<k. upper ! j)" using k zl by simp
    finally have "sum_list (take k zs) + upper ! k \<le> (\<Sum>j<Suc k. upper ! j)" by simp
    also have "\<dots> = (\<Sum>j\<le>k. upper ! j)" by (simp add: lessThan_Suc_atMost)
    also have "\<dots> \<le> cumCapacity ! k" using room k by simp
    finally show ?thesis .
  qed
  have cmp: "0 \<le> ys ! k \<and> ys ! k \<le> xs ! k" if k: "k < ?n" for k
  proof -
    have ck: "0 < coeffs ! k" using pos k by simp
    have lk: "0 \<le> lower ! k" "lower ! k \<le> upper ! k" using bnd k by simp_all
    obtain fa where fa: "1 / 2 \<le> fa"
      "xs ! k = of_int (round (fl (lower ! k + fl ((upper ! k - lower ! k) * fa))))"
      using xq k ck fits[OF k xs(2)] by force
    obtain fc where "fc = fl 0.15"
      "ys ! k = of_int (round (fl (lower ! k + fl ((upper ! k - lower ! k) * fc))))"
      using yq k fits[OF k ys(2)] by force
    then have fc: "ys ! k = of_int (round (fl (lower ! k + fl ((upper ! k - lower ! k) * fl 0.15))))"
      by simp
    have "fl 0.15 \<le> fa" using conservative_fraction_half fa(1) by simp
    then have "(upper ! k - lower ! k) * fl 0.15 \<le> (upper ! k - lower ! k) * fa"
      using lk(2) by (intro mult_left_mono) simp_all
    then have "fl ((upper ! k - lower ! k) * fl 0.15) \<le> fl ((upper ! k - lower ! k) * fa)"
      by (rule fl_mono)
    then have "fl (lower ! k + fl ((upper ! k - lower ! k) * fl 0.15)) \<le>
               fl (lower ! k + fl ((upper ! k - lower ! k) * fa))"
      by (intro fl_mono) simp
    then have "ys ! k \<le> xs ! k" unfolding fa(2) fc by (simp add: round_mono)
    moreover have "0 \<le> ys ! k" using yq k lk(1) by force
    ultimately show ?thesis by simp
  qed
  have "js_ge (js_dot (map Fin coeffs) (map Fin xs)) (js_dot (map Fin coeffs) (map Fin ys))"
    using xs(2) ys(2) cmp pos by (intro js_dot_mono) simp_all
  moreover have "solveLPHeuristic argLimit (map Fin coeffs) (map Fin lower) (map Fin upper) ?A =
      Inr \<lparr>solution = map Fin xs, objective = js_dot (map Fin coeffs) (map Fin xs)\<rparr>"
    using M(1) xs(1) by (intro solveLPHeuristic_eval) simp_all
  moreover have "solveLPHeuristic argLimit (map Fin coeffs) (map Fin lower) (map Fin upper) ?C =
      Inr \<lparr>solution = map Fin ys, objective = js_dot (map Fin coeffs) (map Fin ys)\<rparr>"
    using M(1) ys(1) by (intro solveLPHeuristic_eval) simp_all
  ultimately show ?thesis by simp
qed

text \<open>
  Claim C3, witness: three periods with the coefficients 1, 2, 3, the lower bounds
  0, 10, 0 and the upper bounds 100, 200, 300, whose sums stay far below the ceilings.
\<close>

theorem aggressive_ge_conservative_witness:
  "length [0 :: real, 10, 0] = length [1 :: real, 2, 3] \<and>
   length [100 :: real, 200, 300] = length [1 :: real, 2, 3] \<and>
   length [1 :: real, 2, 3] < (65536 :: nat) \<and>
   length [1 :: real, 2, 3] \<le> length cumCapacity \<and>
   (0 :: real) < 1 \<and> (0 :: real) < 2 \<and> (0 :: real) < 3 \<and>
   (0 :: real) \<le> 100 \<and> (10 :: real) \<le> 200 \<and> (0 :: real) \<le> 300 \<and>
   (100 :: real) \<le> cumCapacity ! 0 \<and> (100 :: real) + 200 \<le> cumCapacity ! 1 \<and>
   (100 :: real) + 200 + 300 \<le> cumCapacity ! 2 \<and>
   (\<exists>ra rc.
      solveLPHeuristic 65536 (map Fin [1, 2, 3]) (map Fin [0, 10, 0]) (map Fin [100, 200, 300])
        \<lparr>maximize = True, strategy = ''aggressive''\<rparr> = Inr ra \<and>
      solveLPHeuristic 65536 (map Fin [1, 2, 3]) (map Fin [0, 10, 0]) (map Fin [100, 200, 300])
        \<lparr>maximize = True, strategy = ''conservative''\<rparr> = Inr rc \<and>
      js_ge (objective ra) (objective rc))"
proof -
  let ?cs = "[1 :: real, 2, 3]"
  let ?lo = "[0 :: real, 10, 0]"
  let ?up = "[100 :: real, 200, 300]"
  have h1: "length ?lo = length ?cs" "length ?up = length ?cs" "length ?cs < (65536 :: nat)"
    "length ?cs \<le> length cumCapacity" "\<forall>c\<in>set ?cs. 0 < c"
    by (simp_all add: cumCapacity_def)
  have h2: "\<forall>i<length ?cs. ?lo ! i \<in> \<int> \<and> ?up ! i \<in> \<int> \<and> 0 \<le> ?lo ! i \<and> ?lo ! i \<le> ?up ! i"
    by (simp add: less_Suc_eq)
  have c: "(100 :: real) \<le> cumCapacity ! 0" "(100 :: real) + 200 \<le> cumCapacity ! 1"
    "(100 :: real) + 200 + 300 \<le> cumCapacity ! 2"
    by (simp_all add: cumCapacity_def)
  have h3: "\<forall>i<length ?cs. (\<Sum>k\<le>i. ?up ! k) \<le> cumCapacity ! i"
    using c by (simp add: less_Suc_eq eval_nat_numeral)
  have "\<exists>ra rc.
      solveLPHeuristic 65536 (map Fin ?cs) (map Fin ?lo) (map Fin ?up)
        \<lparr>maximize = True, strategy = ''aggressive''\<rparr> = Inr ra \<and>
      solveLPHeuristic 65536 (map Fin ?cs) (map Fin ?lo) (map Fin ?up)
        \<lparr>maximize = True, strategy = ''conservative''\<rparr> = Inr rc \<and>
      js_ge (objective ra) (objective rc)"
    using aggressive_ge_conservative[OF h1 h2 h3] .
  moreover have "(0 :: real) < 1" "(0 :: real) < 2" "(0 :: real) < 3"
   "(0 :: real) \<le> 100" "(10 :: real) \<le> 200" "(0 :: real) \<le> 300" by simp_all
  ultimately show ?thesis using h1(1-4) c by (intro conjI)
qed

text \<open>
  Claim C3, counterexample to the claim as stated. Twelve periods, strictly positive
  coefficients, \<open>lower_i \<le> upper_i\<close>. The aggressive run aims at more than half of the span
  of the first month, which is above the ceiling 2700000, so it allocates 2700000 there,
  and the ceiling 5200000 of the second month then cuts its second allocation down to the
  lower bound 2500000. The conservative run allocates 900000 and then 4000000. The second
  coefficient is the larger one: the conservative objective 8900000 exceeds the aggressive
  objective 7700000.
\<close>

theorem aggressive_ge_conservative_counterexample:
  "solveLPHeuristic 65536
       (map Fin [1, 2, 1, 1, 1, 1, 1, 1, 1, 1, 1, 1])
       (map Fin [0, 2500000, 0, 0, 0, 0, 0, 0, 0, 0, 0, 0])
       (map Fin [6000000, 12500000, 0, 0, 0, 0, 0, 0, 0, 0, 0, 0])
       \<lparr>maximize = True, strategy = ''aggressive''\<rparr>
     = Inr \<lparr>solution = map Fin [2700000, 2500000, 0, 0, 0, 0, 0, 0, 0, 0, 0, 0],
            objective = Fin 7700000\<rparr> \<and>
   solveLPHeuristic 65536
       (map Fin [1, 2, 1, 1, 1, 1, 1, 1, 1, 1, 1, 1])
       (map Fin [0, 2500000, 0, 0, 0, 0, 0, 0, 0, 0, 0, 0])
       (map Fin [6000000, 12500000, 0, 0, 0, 0, 0, 0, 0, 0, 0, 0])
       \<lparr>maximize = True, strategy = ''conservative''\<rparr>
     = Inr \<lparr>solution = map Fin [900000, 4000000, 0, 0, 0, 0, 0, 0, 0, 0, 0, 0],
            objective = Fin 8900000\<rparr> \<and>
   \<not> js_ge (Fin 7700000) (Fin 8900000)"
proof -
  let ?cs = "map Fin [1, 2, 1, 1, 1, 1, 1, 1, 1, 1, 1, 1]"
  let ?lo = "map Fin [0, 2500000, 0, 0, 0, 0, 0, 0, 0, 0, 0, 0]"
  let ?up = "map Fin [6000000, 12500000, 0, 0, 0, 0, 0, 0, 0, 0, 0, 0]"
  let ?A = "\<lparr>maximize = True, strategy = ''aggressive''\<rparr>"
  let ?C = "\<lparr>maximize = True, strategy = ''conservative''\<rparr>"
  have m: "lp_maxAbs 65536 ?cs = Inr (Fin 2)" by (simp add: lp_eval)
  have a0: "lp_period ?A (Fin 2) (Fin 1) (Fin 0) (Fin 6000000) (Fin 2700000) (Fin 0) = Fin 2700000"
    using aggressive_period_bound[of 1 2 0 6000000 0 2700000 3000000] by simp
  have a1: "lp_period ?A (Fin 2) (Fin 2) (Fin 2500000) (Fin 12500000) (Fin 5200000) (Fin 2700000)
      = Fin 2500000"
    by (simp add: lp_eval)
  have c0: "lp_period ?C (Fin 2) (Fin 1) (Fin 0) (Fin 6000000) (Fin 2700000) (Fin 0) = Fin 900000"
    using conservative_period[of 1 2 0 6000000 0 2700000 900000] by simp
  have c1: "lp_period ?C (Fin 2) (Fin 2) (Fin 2500000) (Fin 12500000) (Fin 5200000) (Fin 900000)
      = Fin 4000000"
    using conservative_period[of 2 2 2500000 12500000 900000 5200000 1500000] by simp
  note ev = lp_loop_step lp_loop_done js_set_def js_nth_Cons_0 js_nth_Cons_Suc js_nth_Nil
    cumCapacity_def to_double_Ints lp_period_zero
  have la: "lp_loop ?A ?cs ?lo ?up (Fin 2) 0 (Fin 0) (replicate (length ?cs) (Fin 0))
        = map Fin [2700000, 2500000, 0, 0, 0, 0, 0, 0, 0, 0, 0, 0]"
    by (simp add: ev a0 a1)
  have da: "js_dot ?cs (map Fin [2700000, 2500000, 0, 0, 0, 0, 0, 0, 0, 0, 0, 0]) = Fin 7700000"
    by (simp add: dot_eval)
  have ra: "solveLPHeuristic 65536 ?cs ?lo ?up ?A =
      Inr \<lparr>solution = map Fin [2700000, 2500000, 0, 0, 0, 0, 0, 0, 0, 0, 0, 0],
           objective = Fin 7700000\<rparr>"
    by (rule solveLPHeuristic_eval[OF m la da])
  have lc: "lp_loop ?C ?cs ?lo ?up (Fin 2) 0 (Fin 0) (replicate (length ?cs) (Fin 0))
        = map Fin [900000, 4000000, 0, 0, 0, 0, 0, 0, 0, 0, 0, 0]"
    by (simp add: ev c0 c1)
  have dc: "js_dot ?cs (map Fin [900000, 4000000, 0, 0, 0, 0, 0, 0, 0, 0, 0, 0]) = Fin 8900000"
    by (simp add: dot_eval)
  have rc: "solveLPHeuristic 65536 ?cs ?lo ?up ?C =
      Inr \<lparr>solution = map Fin [900000, 4000000, 0, 0, 0, 0, 0, 0, 0, 0, 0, 0],
           objective = Fin 8900000\<rparr>"
    by (rule solveLPHeuristic_eval[OF m lc dc])
  have "\<not> js_ge (Fin 7700000) (Fin 8900000)" by simp
  with ra rc show ?thesis by (intro conjI)
qed

subsection \<open>C4: minimizing ignores the strategy\<close>

text \<open>
  Claim C4. Let \<open>maximize\<close> be false. Two calls that differ only in the strategy return the
  same result (allocations and objective, or the same error); the call returns a result
  whenever the coefficient array is shorter than the engine's limit on the number of
  arguments; and in every result the allocation of every period \<open>i\<close> is the cumulative check,
  the clamp and the rounding (lines 112 to 120) applied, at the running total of the
  allocations before it, to the value
  \<open>lower_i + (upper_i - lower_i) * (1 - r_i)\<close> with \<open>r_i = (coeffs_i / maxAbs + 1) / 2\<close>,
  whatever the strategy.
\<close>

theorem minimize_ignores_strategy:
  assumes "\<not> maximize o1" "\<not> maximize o2"
  shows "solveLPHeuristic argLimit coeffs lower upper o1 =
           solveLPHeuristic argLimit coeffs lower upper o2 \<and>
         (length coeffs < argLimit \<longrightarrow>
            (\<exists>r. solveLPHeuristic argLimit coeffs lower upper o1 = Inr r)) \<and>
         (\<forall>r maxAbs i.
            solveLPHeuristic argLimit coeffs lower upper o1 = Inr r \<longrightarrow>
            lp_maxAbs argLimit coeffs = Inr maxAbs \<longrightarrow> i < length coeffs \<longrightarrow>
            solution r ! i =
              lp_clamp (js_nth lower i) (js_nth upper i) (js_nth (map Fin cumCapacity) i)
                (foldl (+) (Fin 0) (take i (solution r)))
                (js_nth lower i + (js_nth upper i - js_nth lower i) *
                   (Fin 1 - (js_nth coeffs i / maxAbs + Fin 1) / Fin 2)))"
proof (intro conjI allI impI)
  show "solveLPHeuristic argLimit coeffs lower upper o1 =
        solveLPHeuristic argLimit coeffs lower upper o2"
    using lp_loop_minimize[OF assms]
    by (cases "lp_maxAbs argLimit coeffs") (simp_all add: solveLPHeuristic_def Let_def)
next
  assume "length coeffs < argLimit"
  then show "\<exists>r. solveLPHeuristic argLimit coeffs lower upper o1 = Inr r"
    using solveLPHeuristic_result by blast
next
  fix r maxAbs i
  assume r: "solveLPHeuristic argLimit coeffs lower upper o1 = Inr r"
    and m: "lp_maxAbs argLimit coeffs = Inr maxAbs" and i: "i < length coeffs"
  have sol: "solution r = lp_loop o1 coeffs lower upper maxAbs 0 (Fin 0)
               (replicate (length coeffs) (Fin 0))"
    using solveLPHeuristic_Inr[OF r] m by simp
  have "solution r ! i =
        lp_period o1 maxAbs (js_nth coeffs i) (js_nth lower i) (js_nth upper i)
          (js_nth (map Fin cumCapacity) i) (foldl (+) (Fin 0) (take i (solution r)))"
    unfolding sol by (rule lp_loop_nth) (use i in simp_all)
  then show "solution r ! i =
      lp_clamp (js_nth lower i) (js_nth upper i) (js_nth (map Fin cumCapacity) i)
        (foldl (+) (Fin 0) (take i (solution r)))
        (js_nth lower i + (js_nth upper i - js_nth lower i) *
           (Fin 1 - (js_nth coeffs i / maxAbs + Fin 1) / Fin 2))"
    using assms(1) by (simp add: lp_period_def lp_target_def Let_def)
qed

text \<open>
  Claim C4, witness: the strategies aggressive and conservative with \<open>maximize = false\<close> on
  two periods with the coefficients 1 and 2. Both runs return the allocations 3 and 4
  (objective 11); the second allocation is computed at the running total 3.
\<close>

theorem minimize_ignores_strategy_witness:
  "\<not> maximize \<lparr>maximize = False, strategy = ''aggressive''\<rparr> \<and>
   \<not> maximize \<lparr>maximize = False, strategy = ''conservative''\<rparr> \<and>
   solveLPHeuristic 65536 [Fin 1, Fin 2] [Fin 0, Fin 4] [Fin 10, Fin 10]
       \<lparr>maximize = False, strategy = ''aggressive''\<rparr> =
     Inr \<lparr>solution = [Fin 3, Fin 4], objective = Fin 11\<rparr> \<and>
   solveLPHeuristic 65536 [Fin 1, Fin 2] [Fin 0, Fin 4] [Fin 10, Fin 10]
       \<lparr>maximize = False, strategy = ''conservative''\<rparr> =
     Inr \<lparr>solution = [Fin 3, Fin 4], objective = Fin 11\<rparr> \<and>
   [Fin 3, Fin 4] ! 0 =
     lp_clamp (Fin 0) (Fin 10) (Fin 2700000) (Fin 0)
       (Fin 0 + (Fin 10 - Fin 0) * (Fin 1 - (Fin 1 / Fin 2 + Fin 1) / Fin 2)) \<and>
   [Fin 3, Fin 4] ! 1 =
     lp_clamp (Fin 4) (Fin 10) (Fin 5200000) (Fin 3)
       (Fin 4 + (Fin 10 - Fin 4) * (Fin 1 - (Fin 2 / Fin 2 + Fin 1) / Fin 2))"
proof -
  let ?cs = "[Fin 1, Fin 2]"
  let ?lo = "[Fin 0, Fin 4]"
  let ?up = "[Fin 10, Fin 10]"
  let ?A = "\<lparr>maximize = False, strategy = ''aggressive''\<rparr>"
  let ?C = "\<lparr>maximize = False, strategy = ''conservative''\<rparr>"
  let ?r = "\<lparr>solution = [Fin 3, Fin 4], objective = Fin 11\<rparr>"
  have m: "lp_maxAbs 65536 ?cs = Inr (Fin 2)" by (simp add: lp_eval)
  have "lp_loop ?A ?cs ?lo ?up (Fin 2) 0 (Fin 0) (replicate (length ?cs) (Fin 0)) = [Fin 3, Fin 4]"
    by (simp add: lp_eval)
  then have a: "solveLPHeuristic 65536 ?cs ?lo ?up ?A = Inr ?r"
    using m by (simp add: solveLPHeuristic_def lp_eval)
  note t = minimize_ignores_strategy[of ?A ?C 65536 ?cs ?lo ?up]
  have h: "\<not> maximize ?A" "\<not> maximize ?C" by simp_all
  have c: "solveLPHeuristic 65536 ?cs ?lo ?up ?C = Inr ?r"
    using t[OF h, THEN conjunct1] a by simp
  note e = t[OF h, THEN conjunct2, THEN conjunct2, THEN spec, THEN spec, THEN spec, THEN mp,
      THEN mp, THEN mp, OF a m]
  have e0: "[Fin 3, Fin 4] ! 0 =
     lp_clamp (Fin 0) (Fin 10) (Fin 2700000) (Fin 0)
       (Fin 0 + (Fin 10 - Fin 0) * (Fin 1 - (Fin 1 / Fin 2 + Fin 1) / Fin 2))"
    using e[of 0] by (simp add: js_nth_def cumCapacity_def)
  have e1: "[Fin 3, Fin 4] ! 1 =
     lp_clamp (Fin 4) (Fin 10) (Fin 5200000) (Fin 3)
       (Fin 4 + (Fin 10 - Fin 4) * (Fin 1 - (Fin 2 / Fin 2 + Fin 1) / Fin 2))"
    using e[of 1] by (simp add: js_nth_def cumCapacity_def to_double_Ints)
  from h a c e0 e1 show ?thesis by (intro conjI)
qed

subsection \<open>C5: the reciprocal edit of the pairwise matrix\<close>

text \<open>
  Claim C5, as amended. An edit of an off-diagonal cell \<open>(i, j)\<close> of the matrix stores the
  parsed value \<open>v\<close> (1 when the input parses to 0 or is not numeric) in cell \<open>(i, j)\<close> and
  \<open>1 / v\<close> in cell \<open>(j, i)\<close>, and leaves every other cell, in particular every diagonal
  cell, as it was. Nothing is promised for an edit of a diagonal cell, which stores the
  entered value there.
\<close>

theorem updatePairwise_reciprocal:
  assumes "i < length m" "j < length m" "j < length (m ! i)" "i < length (m ! j)" "i \<noteq> j"
  shows "\<exists>m'. updatePairwise i j pf m = Inr m' \<and> length m' = length m \<and>
           m' ! i ! j = js_or pf (Fin 1) \<and>
           m' ! j ! i = Fin 1 / js_or pf (Fin 1) \<and>
           (\<forall>a<length m. \<forall>b<length (m ! a).
              (a, b) \<noteq> (i, j) \<and> (a, b) \<noteq> (j, i) \<longrightarrow> m' ! a ! b = m ! a ! b)"
proof -
  let ?m' = "m[i := (m ! i)[j := js_or pf (Fin 1)], j := (m ! j)[i := Fin 1 / js_or pf (Fin 1)]]"
  have "updatePairwise i j pf m = Inr ?m'" using assms by (rule updatePairwise_offdiag)
  moreover have "length ?m' = length m" by simp
  moreover have "?m' ! i ! j = js_or pf (Fin 1)" using assms by simp
  moreover have "?m' ! j ! i = Fin 1 / js_or pf (Fin 1)" using assms by simp
  moreover have "\<forall>a<length m. \<forall>b<length (m ! a).
      (a, b) \<noteq> (i, j) \<and> (a, b) \<noteq> (j, i) \<longrightarrow> ?m' ! a ! b = m ! a ! b"
    using assms by (auto simp: nth_list_update)
  ultimately show ?thesis by blast
qed

text \<open>
  Claim C5, witness: setting cell (0, 2) of the default matrix to 4 stores 1/4 in cell
  (2, 0) and leaves the diagonal at 1.
\<close>

theorem updatePairwise_reciprocal_witness:
  "(0 :: nat) < length DEFAULT_PAIRWISE \<and> (2 :: nat) < length DEFAULT_PAIRWISE \<and>
   (0 :: nat) \<noteq> 2 \<and>
   (\<exists>m'. updatePairwise 0 2 (Fin 4) DEFAULT_PAIRWISE = Inr m' \<and>
         m' ! 0 ! 2 = Fin 4 \<and> m' ! 2 ! 0 = Fin (1 / 4) \<and>
         m' ! 0 ! 0 = Fin 1 \<and> m' ! 1 ! 1 = Fin 1 \<and> m' ! 2 ! 2 = Fin 1)"
proof -
  have len: "length DEFAULT_PAIRWISE = 3" "length (DEFAULT_PAIRWISE ! 0) = 3"
    "length (DEFAULT_PAIRWISE ! 1) = 3" "length (DEFAULT_PAIRWISE ! 2) = 3"
    by (simp_all add: DEFAULT_PAIRWISE_def)
  have diag: "DEFAULT_PAIRWISE ! 0 ! 0 = Fin 1" "DEFAULT_PAIRWISE ! 1 ! 1 = Fin 1"
    "DEFAULT_PAIRWISE ! 2 ! 2 = Fin 1"
    by (simp_all add: DEFAULT_PAIRWISE_def)
  obtain m' where m': "updatePairwise 0 2 (Fin 4) DEFAULT_PAIRWISE = Inr m'"
    "m' ! 0 ! 2 = js_or (Fin 4) (Fin 1)" "m' ! 2 ! 0 = Fin 1 / js_or (Fin 4) (Fin 1)"
    "\<forall>a<length DEFAULT_PAIRWISE. \<forall>b<length (DEFAULT_PAIRWISE ! a).
        (a, b) \<noteq> (0, 2) \<and> (a, b) \<noteq> (2, 0) \<longrightarrow> m' ! a ! b = DEFAULT_PAIRWISE ! a ! b"
    using updatePairwise_reciprocal[of 0 DEFAULT_PAIRWISE 2 "Fin 4"] len by auto
  have "m' ! 0 ! 0 = DEFAULT_PAIRWISE ! 0 ! 0" "m' ! 1 ! 1 = DEFAULT_PAIRWISE ! 1 ! 1"
    "m' ! 2 ! 2 = DEFAULT_PAIRWISE ! 2 ! 2"
    using m'(4) len by simp_all
  with m'(1-3) diag len show ?thesis by (simp add: js_or_def to_double_div4)
qed

text \<open>
  Claim C5, counterexample to the claim as stated. Editing the diagonal cell (0, 0) of the
  default matrix to 2 stores 2 there, so an edit can make a diagonal entry differ from 1.
  The default matrix itself is not reciprocal in the cells (0, 2) and (2, 0), which hold
  0.333 and 3.
\<close>

theorem updatePairwise_diagonal_counterexample:
  "updatePairwise 0 0 (Fin 2) DEFAULT_PAIRWISE =
     Inr [[Fin 2, js_lit 0.2, js_lit 0.333], [Fin 5, Fin 1, Fin 5], [Fin 3, js_lit 0.2, Fin 1]] \<and>
   Fin 2 \<noteq> Fin 1 \<and>
   DEFAULT_PAIRWISE ! 0 ! 2 = js_lit 0.333 \<and> DEFAULT_PAIRWISE ! 2 ! 0 = Fin 3 \<and>
   Fin 1 / Fin 3 \<noteq> js_lit 0.333"
proof -
  have "updatePairwise 0 0 (Fin 2) DEFAULT_PAIRWISE =
     Inr [[Fin 2, js_lit 0.2, js_lit 0.333], [Fin 5, Fin 1, Fin 5], [Fin 3, js_lit 0.2, Fin 1]]"
    by (simp add: updatePairwise_def DEFAULT_PAIRWISE_def js_set_def js_or_def)
  moreover have "DEFAULT_PAIRWISE ! 0 ! 2 = js_lit 0.333" "DEFAULT_PAIRWISE ! 2 ! 0 = Fin 3"
    by (simp_all add: DEFAULT_PAIRWISE_def)
  ultimately show ?thesis using third_not_0333 by simp
qed

subsection \<open>C6: the consistency index of a 1x1 matrix\<close>

text \<open>
  Claim C6 fails on the code. For the 1x1 matrix \<open>[[1]]\<close> the consistency index is not 0:
  the division by \<open>n - 1 = 0\<close> is unguarded and yields \<open>NaN\<close> (the quotient \<open>0 / 0\<close>), while
  the consistency ratio of the same result is guarded and is 0.
\<close>

theorem computeAHPFromMatrix_CI_1x1:
  "CI (computeAHPFromMatrix [[Fin 1]]) = NaN \<and> CR (computeAHPFromMatrix [[Fin 1]]) = Fin 0"
  by (simp add: computeAHPFromMatrix_def js_sum_def js_nth_def js_or_def RI_table_def
      to_double_Ints)

subsection \<open>C7: arrays of different lengths\<close>

text \<open>
  Claim C7, as amended. The heuristic checks no length. Whatever the lengths of the two
  bound arrays: if the coefficient array is as long as the engine's limit on the number
  of arguments of a call, or longer, the call throws \<open>RangeError\<close> (from the spread in
  \<open>Math.max\<close>, line 88); if it is shorter, the call returns a result with one allocation
  per coefficient, in which every period whose lower or upper bound is missing has the
  allocation \<open>NaN\<close>. In both cases bounds beyond the number of coefficients are ignored:
  the outcome is that of the call with both bound arrays cut to the length of the
  coefficients.
\<close>

theorem solveLPHeuristic_length_mismatch:
  "(argLimit \<le> length coeffs \<longrightarrow>
      solveLPHeuristic argLimit coeffs lower upper options = Inl RangeError) \<and>
   (length coeffs < argLimit \<longrightarrow>
      (\<exists>r. solveLPHeuristic argLimit coeffs lower upper options = Inr r \<and>
           length (solution r) = length coeffs \<and>
           (\<forall>i<length coeffs. length lower \<le> i \<or> length upper \<le> i \<longrightarrow> solution r ! i = NaN))) \<and>
   solveLPHeuristic argLimit coeffs lower upper options =
     solveLPHeuristic argLimit coeffs (take (length coeffs) lower) (take (length coeffs) upper)
       options"
proof (intro conjI impI)
  assume "argLimit \<le> length coeffs"
  then show "solveLPHeuristic argLimit coeffs lower upper options = Inl RangeError"
    by (rule solveLPHeuristic_error)
next
  assume lt: "length coeffs < argLimit"
  then obtain m where m: "lp_maxAbs argLimit coeffs = Inr m" by (simp add: lp_maxAbs_error)
  define sol where "sol = lp_loop options coeffs lower upper m 0 (Fin 0)
      (replicate (length coeffs) (Fin 0))"
  have r: "solveLPHeuristic argLimit coeffs lower upper options =
        Inr \<lparr>solution = sol, objective = js_dot coeffs sol\<rparr>"
    using m by (simp add: solveLPHeuristic_def Let_def sol_def)
  have len: "length sol = length coeffs" unfolding sol_def by (rule lp_loop_length) simp_all
  have nan: "sol ! i = NaN" if i: "i < length coeffs"
    and short: "length lower \<le> i \<or> length upper \<le> i" for i
  proof -
    have "sol ! i = lp_period options m (js_nth coeffs i) (js_nth lower i) (js_nth upper i)
          (js_nth (map Fin cumCapacity) i) (foldl (+) (Fin 0) (take i sol))"
      unfolding sol_def by (rule lp_loop_nth) (use i in simp_all)
    moreover have "js_nth lower i = NaN \<or> js_nth upper i = NaN"
      using short by (auto simp: js_nth_def)
    ultimately show ?thesis by (simp add: lp_period_NaN)
  qed
  show "\<exists>r. solveLPHeuristic argLimit coeffs lower upper options = Inr r \<and>
           length (solution r) = length coeffs \<and>
           (\<forall>i<length coeffs. length lower \<le> i \<or> length upper \<le> i \<longrightarrow> solution r ! i = NaN)"
    using r len nan by simp
next
  have "lp_loop options coeffs lower upper m 0 (Fin 0) (replicate (length coeffs) (Fin 0)) =
        lp_loop options coeffs (take (length coeffs) lower) (take (length coeffs) upper)
          m 0 (Fin 0) (replicate (length coeffs) (Fin 0))" for m
    by (rule lp_loop_cong) (simp_all add: js_nth_def)
  then show "solveLPHeuristic argLimit coeffs lower upper options =
     solveLPHeuristic argLimit coeffs (take (length coeffs) lower) (take (length coeffs) upper)
       options"
    by (cases "lp_maxAbs argLimit coeffs") (simp_all add: solveLPHeuristic_def Let_def)
qed

text \<open>
  Claim C7, witness: three coefficients, one lower bound and two upper bounds. With the
  limit 3 the call throws \<open>RangeError\<close>; with the limit 65536 it returns three allocations,
  of which the second and the third are \<open>NaN\<close>.
\<close>

theorem solveLPHeuristic_length_mismatch_witness:
  "length [Fin 3, Fin 4, Fin 5] < (65536 :: nat) \<and> (3 :: nat) \<le> length [Fin 3, Fin 4, Fin 5] \<and>
   solveLPHeuristic 3 [Fin 3, Fin 4, Fin 5] [Fin 1] [Fin 9, Fin 9]
       \<lparr>maximize = True, strategy = ''balanced''\<rparr> = Inl RangeError \<and>
   (\<exists>r. solveLPHeuristic 65536 [Fin 3, Fin 4, Fin 5] [Fin 1] [Fin 9, Fin 9]
           \<lparr>maximize = True, strategy = ''balanced''\<rparr> = Inr r \<and>
        length (solution r) = 3 \<and> solution r ! 1 = NaN \<and> solution r ! 2 = NaN)"
proof -
  let ?cs = "[Fin 3, Fin 4, Fin 5]"
  let ?o = "\<lparr>maximize = True, strategy = ''balanced''\<rparr>"
  have h: "length ?cs < (65536 :: nat)" "(3 :: nat) \<le> length ?cs" by simp_all
  have e: "solveLPHeuristic 3 ?cs [Fin 1] [Fin 9, Fin 9] ?o = Inl RangeError"
    using solveLPHeuristic_length_mismatch[of 3 ?cs "[Fin 1]" "[Fin 9, Fin 9]" ?o,
        THEN conjunct1] h(2) by simp
  obtain r where r: "solveLPHeuristic 65536 ?cs [Fin 1] [Fin 9, Fin 9] ?o = Inr r"
    "length (solution r) = length ?cs"
    "\<forall>i<length ?cs. length [Fin 1] \<le> i \<or> length [Fin 9, Fin 9 :: jsnum] \<le> i \<longrightarrow>
       solution r ! i = NaN"
    using solveLPHeuristic_length_mismatch[of 65536 ?cs "[Fin 1]" "[Fin 9, Fin 9]" ?o,
        THEN conjunct2, THEN conjunct1] h(1) by blast
  have "solution r ! 1 = NaN" "solution r ! 2 = NaN" using r(3) by simp_all
  with r(1,2) e h show ?thesis by auto
qed

text \<open>
  Claim C7, counterexample to the claim as stated. With two coefficients, one lower bound
  and three upper bounds the call returns a result: the first allocation is 20, the second
  is \<open>NaN\<close>, the objective is \<open>NaN\<close>, and the third upper bound is never read.
\<close>

theorem solveLPHeuristic_length_mismatch_counterexample:
  "solveLPHeuristic 65536 [Fin 1, Fin 1] [Fin 0] [Fin 20, Fin 20, Fin 20]
     \<lparr>maximize = True, strategy = ''aggressive''\<rparr> =
   Inr \<lparr>solution = [Fin 20, NaN], objective = NaN\<rparr>"
proof -
  let ?cs = "[Fin 1, Fin 1]"
  have m: "lp_maxAbs 65536 ?cs = Inr (Fin 1)" by (simp add: lp_eval)
  have "lp_loop \<lparr>maximize = True, strategy = ''aggressive''\<rparr> ?cs [Fin 0] [Fin 20, Fin 20, Fin 20]
          (Fin 1) 0 (Fin 0) (replicate (length ?cs) (Fin 0)) = [Fin 20, NaN]"
    by (simp add: lp_eval)
  then show ?thesis using m by (simp add: solveLPHeuristic_def lp_eval)
qed

subsection \<open>C8: improvement against a zero baseline\<close>

text \<open>
  Claim C8. In the multi-objective strategy the branch stores a result whenever the
  turnover array is shorter than the engine's limit on the number of arguments of a call
  (otherwise the heuristic throws and nothing is reported), and in every result that it
  stores, for each of the three metrics: if the baseline total of the metric (the sum over
  the months of coefficient times order) is zero, the reported improvement is the string
  \<open>0.00\<close>, whatever \<open>toFixed\<close> would print.
\<close>

theorem improvement_zero_baseline:
  "(length (turnover d) < argLimit \<longrightarrow>
      (\<exists>res. runOptimization_multiObjective argLimit toFixed d ahp = Inr res)) \<and>
   (\<forall>res. runOptimization_multiObjective argLimit toFixed d ahp = Inr res \<longrightarrow>
      (js_dot (turnover d) (orders d) = Fin 0 \<longrightarrow>
         imp_turnover (res_improvements res) = ''0.00'') \<and>
      (js_dot (cost d) (orders d) = Fin 0 \<longrightarrow>
         imp_cost (res_improvements res) = ''0.00'') \<and>
      (js_dot (productivity d) (orders d) = Fin 0 \<longrightarrow>
         imp_productivity (res_improvements res) = ''0.00''))"
proof (intro conjI allI impI)
  assume "length (turnover d) < argLimit"
  then show "\<exists>res. runOptimization_multiObjective argLimit toFixed d ahp = Inr res"
    by (simp add: runOptimization_multiObjective_def Let_def solveLPHeuristic_def
        lp_maxAbs_error)
next
  fix res
  assume "runOptimization_multiObjective argLimit toFixed d ahp = Inr res"
    and "js_dot (turnover d) (orders d) = Fin 0"
  then show "imp_turnover (res_improvements res) = ''0.00''"
    by (auto simp: runOptimization_multiObjective_def Let_def split: sum.splits)
next
  fix res
  assume "runOptimization_multiObjective argLimit toFixed d ahp = Inr res"
    and "js_dot (cost d) (orders d) = Fin 0"
  then show "imp_cost (res_improvements res) = ''0.00''"
    by (auto simp: runOptimization_multiObjective_def Let_def split: sum.splits)
next
  fix res
  assume "runOptimization_multiObjective argLimit toFixed d ahp = Inr res"
    and "js_dot (productivity d) (orders d) = Fin 0"
  then show "imp_productivity (res_improvements res) = ''0.00''"
    by (auto simp: runOptimization_multiObjective_def Let_def split: sum.splits)
qed

text \<open>
  Claim C8, witness: two months with all coefficients 0, so that the three baselines are 0.
\<close>

theorem improvement_zero_baseline_witness:
  "length [Fin 0, Fin 0] < (65536 :: nat) \<and>
   js_dot [Fin 0, Fin 0] [Fin 5, Fin 7] = Fin 0 \<and>
   (\<exists>res. runOptimization_multiObjective 65536 (\<lambda>v n. ''1.00'')
      \<lparr>turnover = [Fin 0, Fin 0], cost = [Fin 0, Fin 0], productivity = [Fin 0, Fin 0],
       orders = [Fin 5, Fin 7], capacity = [Fin 10, Fin 10]\<rparr> None = Inr res \<and>
      res_improvements res =
        \<lparr>imp_turnover = ''0.00'', imp_cost = ''0.00'', imp_productivity = ''0.00''\<rparr>)"
proof -
  have z: "js_dot [Fin 0, Fin 0] [Fin 5, Fin 7] = Fin 0"
    by (simp add: js_dot_def js_nth_def)
  let ?d = "\<lparr>turnover = [Fin 0, Fin 0], cost = [Fin 0, Fin 0], productivity = [Fin 0, Fin 0],
       orders = [Fin 5, Fin 7], capacity = [Fin 10, Fin 10]\<rparr>"
  note t = improvement_zero_baseline[of ?d 65536 "\<lambda>v n. ''1.00''" None]
  obtain res where res: "runOptimization_multiObjective 65536 (\<lambda>v n. ''1.00'') ?d None = Inr res"
    using t[THEN conjunct1] by auto
  note u = t[THEN conjunct2, THEN spec, THEN mp, OF res]
  have "imp_turnover (res_improvements res) = ''0.00''"
    using u[THEN conjunct1] z by simp
  moreover have "imp_cost (res_improvements res) = ''0.00''"
    using u[THEN conjunct2, THEN conjunct1] z by simp
  moreover have "imp_productivity (res_improvements res) = ''0.00''"
    using u[THEN conjunct2, THEN conjunct2] z by simp
  ultimately have "res_improvements res =
        \<lparr>imp_turnover = ''0.00'', imp_cost = ''0.00'', imp_productivity = ''0.00''\<rparr>"
    by (cases "res_improvements res") simp
  with res z show ?thesis by auto
qed

subsection \<open>C9: inverted bounds\<close>

text \<open>
  Claim C9, as amended. Let the coefficient array be shorter than the engine's limit on
  the number of arguments of a call and let every coefficient be a finite number. For
  every period \<open>i\<close> whose bounds are finite numbers of magnitude at most \<open>2^1022\<close> with
  \<open>upper_i < lower_i\<close>, the allocation of the period is \<open>Math.round(upper_i)\<close>, for every
  strategy, every value of \<open>maximize\<close>, every state of the running total and whatever the
  bounds of the other periods are: the upper bound is applied last and wins.
\<close>

theorem solveLPHeuristic_inverted_bounds:
  assumes "length coeffs < argLimit" "i < length coeffs"
    and "js_nth lower i = Fin lb" "js_nth upper i = Fin ub"
    and "\<bar>lb\<bar> \<le> 2 ^ 1022" "\<bar>ub\<bar> \<le> 2 ^ 1022" "ub < lb"
  shows "\<exists>r. solveLPHeuristic argLimit (map Fin coeffs) lower upper options = Inr r \<and>
           solution r ! i = Fin (of_int (round ub))"
proof -
  from assms(1) have lt: "length coeffs < argLimit" by simp
  obtain M where M: "lp_maxAbs argLimit (map Fin coeffs) = Inr (Fin M)" "1 \<le> M"
    "\<forall>c\<in>set coeffs. \<bar>c\<bar> \<le> M"
    using lp_maxAbs_Fin[OF lt] by blast
  define sol where "sol = lp_loop options (map Fin coeffs) lower upper (Fin M) 0 (Fin 0)
      (replicate (length (map Fin coeffs)) (Fin 0))"
  have r: "solveLPHeuristic argLimit (map Fin coeffs) lower upper options =
        Inr \<lparr>solution = sol, objective = js_dot (map Fin coeffs) sol\<rparr>"
    using M(1) by (simp add: solveLPHeuristic_def Let_def sol_def)
  have "sol ! i = lp_period options (Fin M) (js_nth (map Fin coeffs) i) (js_nth lower i)
          (js_nth upper i) (js_nth (map Fin cumCapacity) i) (foldl (+) (Fin 0) (take i sol))"
    unfolding sol_def by (rule lp_loop_nth) (use assms(2) in simp_all)
  also have "\<dots> = lp_period options (Fin M) (Fin (coeffs ! i)) (Fin lb) (Fin ub)
          (js_nth (map Fin cumCapacity) i) (foldl (+) (Fin 0) (take i sol))"
    using assms(2,3,4) by (simp add: js_nth_map_Fin)
  also have "\<dots> = Fin (of_int (round ub))"
    using M(3) assms(2) by (intro lp_period_inverted M(2) assms(5,6,7)) simp
  finally show ?thesis using r by simp
qed

text \<open>
  Claim C9, witness: three periods, the third with lower bound 5 and upper bound 3 and a
  running total that is not zero; its allocation is 3.
\<close>

theorem solveLPHeuristic_inverted_bounds_witness:
  "length [1 :: real, 2, 2] < (65536 :: nat) \<and> (2 :: nat) < length [1 :: real, 2, 2] \<and>
   js_nth [Fin 4, Fin 6, Fin 5] 2 = Fin 5 \<and> js_nth [Fin 10, Fin 10, Fin 3] 2 = Fin 3 \<and>
   \<bar>5 :: real\<bar> \<le> 2 ^ 1022 \<and> \<bar>3 :: real\<bar> \<le> 2 ^ 1022 \<and> (3 :: real) < 5 \<and>
   (\<exists>r. solveLPHeuristic 65536 (map Fin [1, 2, 2]) [Fin 4, Fin 6, Fin 5] [Fin 10, Fin 10, Fin 3]
           \<lparr>maximize = True, strategy = ''aggressive''\<rparr> = Inr r \<and>
        solution r ! 2 = Fin 3)"
proof -
  have h: "length [1 :: real, 2, 2] < (65536 :: nat)" "(2 :: nat) < length [1 :: real, 2, 2]"
    "js_nth [Fin 4, Fin 6, Fin 5] 2 = Fin 5" "js_nth [Fin 10, Fin 10, Fin 3] 2 = Fin 3"
    "\<bar>5 :: real\<bar> \<le> 2 ^ 1022" "\<bar>3 :: real\<bar> \<le> 2 ^ 1022" "(3 :: real) < 5"
    by (simp_all add: js_nth_def)
  have "\<exists>r. solveLPHeuristic 65536 (map Fin [1, 2, 2]) [Fin 4, Fin 6, Fin 5] [Fin 10, Fin 10, Fin 3]
           \<lparr>maximize = True, strategy = ''aggressive''\<rparr> = Inr r \<and>
        solution r ! 2 = Fin 3"
    using solveLPHeuristic_inverted_bounds[OF h,
        of "\<lparr>maximize = True, strategy = ''aggressive''\<rparr>"] by simp
  with h show ?thesis by (intro conjI)
qed

text \<open>
  Claim C9, counterexample to the claim as stated. With the coefficients 1 and \<open>Infinity\<close>
  the largest absolute coefficient is \<open>Infinity\<close>, the rank of the second period is
  \<open>Infinity / Infinity = NaN\<close>, and its allocation, with lower bound 5 and upper bound 3, is
  \<open>NaN\<close> and not 3.
\<close>

theorem solveLPHeuristic_inverted_bounds_counterexample:
  "solveLPHeuristic 65536 [Fin 1, PInf] [Fin 0, Fin 5] [Fin 10, Fin 3]
     \<lparr>maximize = False, strategy = ''balanced''\<rparr> =
   Inr \<lparr>solution = [Fin 5, NaN], objective = NaN\<rparr>"
proof -
  let ?cs = "[Fin 1, PInf]"
  have m: "lp_maxAbs 65536 ?cs = Inr PInf" by (simp add: lp_eval)
  have "lp_loop \<lparr>maximize = False, strategy = ''balanced''\<rparr> ?cs [Fin 0, Fin 5] [Fin 10, Fin 3]
          PInf 0 (Fin 0) (replicate (length ?cs) (Fin 0)) = [Fin 5, NaN]"
    by (simp add: lp_eval)
  then show ?thesis using m by (simp add: solveLPHeuristic_def lp_eval)
qed

subsection \<open>C10: zero and non-numeric input of a matrix cell\<close>

text \<open>
  Claim C10, as amended. An edit whose input is not numeric or parses to 0 stores 1 in the
  cell and 1 in its reciprocal cell; the divisor of \<open>1 / parsed\<close> is never 0; and after any
  sequence of edits of the default matrix whose inputs are not numeric, parse to 0, or
  parse to a finite number that is at least \<open>2^-1022\<close> (the smallest positive normal
  number), the matrix is still 3x3 and every entry is finite and strictly positive.
  Nothing is promised for negative inputs, nor for positive inputs below \<open>2^-1022\<close>, whose
  reciprocal may overflow to \<open>Infinity\<close>.
\<close>

theorem updatePairwise_never_zero:
  "((pf = NaN \<or> pf = Fin 0) \<and> i < length m \<and> j < length m \<and>
      j < length (m ! i) \<and> i < length (m ! j) \<longrightarrow>
    (\<exists>m'. updatePairwise i j pf m = Inr m' \<and> m' ! i ! j = Fin 1 \<and> m' ! j ! i = Fin 1)) \<and>
   js_or pf (Fin 1) \<noteq> Fin 0 \<and>
   ((\<forall>(i, j, v)\<in>set es. i < 3 \<and> j < 3 \<and>
        (v = NaN \<or> v = Fin 0 \<or> (\<exists>r. v = Fin r \<and> 1 / 2 ^ 1022 \<le> r \<and> r < 2 ^ 1024))) \<longrightarrow>
    (\<exists>m'. updatePairwise_all es DEFAULT_PAIRWISE = Inr m' \<and> length m' = 3 \<and>
          (\<forall>row\<in>set m'. length row = 3 \<and> (\<forall>x\<in>set row. \<exists>r>0. x = Fin r))))"
proof (intro conjI impI)
  assume a: "(pf = NaN \<or> pf = Fin 0) \<and> i < length m \<and> j < length m \<and>
      j < length (m ! i) \<and> i < length (m ! j)"
  then have one: "js_or pf (Fin 1) = Fin 1" by (simp add: js_or_one_cases)
  show "\<exists>m'. updatePairwise i j pf m = Inr m' \<and> m' ! i ! j = Fin 1 \<and> m' ! j ! i = Fin 1"
  proof (cases "i = j")
    case True
    with a one show ?thesis by (simp add: updatePairwise_diag)
  next
    case False
    with a one show ?thesis by (simp add: updatePairwise_offdiag to_double_Ints)
  qed
next
  show "js_or pf (Fin 1) \<noteq> Fin 0" by (cases pf) (simp_all add: js_or_def)
next
  assume "\<forall>(i, j, v)\<in>set es. i < 3 \<and> j < 3 \<and>
        (v = NaN \<or> v = Fin 0 \<or> (\<exists>r. v = Fin r \<and> 1 / 2 ^ 1022 \<le> r \<and> r < 2 ^ 1024))"
  then show "\<exists>m'. updatePairwise_all es DEFAULT_PAIRWISE = Inr m' \<and> length m' = 3 \<and>
          (\<forall>row\<in>set m'. length row = 3 \<and> (\<forall>x\<in>set row. \<exists>r>0. x = Fin r))"
    by (rule updatePairwise_all_positive[OF DEFAULT_PAIRWISE_positive])
qed

text \<open>
  Claim C10, witness: the input \<open>NaN\<close> in cell (0, 1), and three edits with the inputs
  \<open>NaN\<close>, 0 and 4.
\<close>

theorem updatePairwise_never_zero_witness:
  "(0 :: nat) < length DEFAULT_PAIRWISE \<and> (1 :: nat) < length DEFAULT_PAIRWISE \<and>
   (\<exists>m'. updatePairwise 0 1 NaN DEFAULT_PAIRWISE = Inr m' \<and>
         m' ! 0 ! 1 = Fin 1 \<and> m' ! 1 ! 0 = Fin 1) \<and>
   js_or NaN (Fin 1) \<noteq> Fin 0 \<and>
   (\<exists>m'. updatePairwise_all [(0, 1, NaN), (1, 2, Fin 0), (2, 0, Fin 4)] DEFAULT_PAIRWISE = Inr m' \<and>
         length m' = 3)"
proof -
  have len: "0 < length DEFAULT_PAIRWISE" "1 < length DEFAULT_PAIRWISE"
    "1 < length (DEFAULT_PAIRWISE ! 0)" "0 < length (DEFAULT_PAIRWISE ! 1)"
    by (simp_all add: DEFAULT_PAIRWISE_def)
  have r4: "\<exists>r. Fin 4 = Fin r \<and> 1 / 2 ^ 1022 \<le> r \<and> r < 2 ^ 1024"
  proof -
    have "1 / 2 ^ 1022 \<le> (4 :: real)" by (rule order_trans[of _ 1]) simp_all
    moreover have "(4 :: real) < 2 ^ 1024" by simp
    ultimately show ?thesis by blast
  qed
  have es: "\<forall>(i, j, v)\<in>set [(0, 1, NaN), (1, 2, Fin 0), (2 :: nat, 0 :: nat, Fin 4)].
              i < 3 \<and> j < 3 \<and>
              (v = NaN \<or> v = Fin 0 \<or> (\<exists>r. v = Fin r \<and> 1 / 2 ^ 1022 \<le> r \<and> r < 2 ^ 1024))"
    using r4 by simp
  note t = updatePairwise_never_zero[of NaN 0 DEFAULT_PAIRWISE 1
      "[(0, 1, NaN), (1, 2, Fin 0), (2, 0, Fin 4)]"]
  have "\<exists>m'. updatePairwise 0 1 NaN DEFAULT_PAIRWISE = Inr m' \<and>
         m' ! 0 ! 1 = Fin 1 \<and> m' ! 1 ! 0 = Fin 1"
    using t[THEN conjunct1] len by simp
  moreover have "js_or NaN (Fin 1) \<noteq> Fin 0" using t[THEN conjunct2, THEN conjunct1] .
  moreover have "\<exists>m'. updatePairwise_all [(0, 1, NaN), (1, 2, Fin 0), (2, 0, Fin 4)]
      DEFAULT_PAIRWISE = Inr m' \<and> length m' = 3"
    using t[THEN conjunct2, THEN conjunct2, THEN mp, OF es] by blast
  ultimately show ?thesis using len by blast
qed

text \<open>
  Claim C10, counterexample to the claim as stated. The input \<open>-2\<close> in cell (0, 1) of the
  default matrix is stored as it is, with the reciprocal \<open>-1/2\<close> in cell (1, 0): after this
  edit two entries are not strictly positive.
\<close>

theorem updatePairwise_negative_counterexample:
  "updatePairwise_all [(0, 1, Fin (- 2))] DEFAULT_PAIRWISE =
     Inr [[Fin 1, Fin (- 2), js_lit 0.333], [Fin (- (1 / 2)), Fin 1, Fin 5],
          [Fin 3, js_lit 0.2, Fin 1]] \<and>
   \<not> js_gt (Fin (- 2)) (Fin 0) \<and> \<not> js_gt (Fin (- (1 / 2))) (Fin 0)"
proof -
  have "to_double (- (1 / 2)) = Fin (- (1 / 2))"
    using to_double_dyadic[of "- 1" 1] by simp
  then show ?thesis
    by (simp add: updatePairwise_def DEFAULT_PAIRWISE_def js_set_def js_or_def)
qed

end
